theory Spec2Isabelle
  imports Main "HOL-Library.Multiset"
begin

section \<open>Data model of \<open>hotel_reservation.py\<close>\<close>

text \<open>
  A \<open>Room\<close> object has the four fields the constructor assigns. Python integers are
  unbounded, so every numeric field is an \<open>int\<close>.
\<close>

record room =
  floor :: int
  index :: int
  is_booked :: bool
  number :: int

text \<open>
  \<open>Room.__init__(floor, index)\<close>: the room starts unbooked; the display number is
  \<open>floor * 100 + (index + 1)\<close> below floor 10 and \<open>1000 + (index + 1)\<close> otherwise.
\<close>

definition Room :: "int \<Rightarrow> int \<Rightarrow> room" where
  "Room f i =
     \<lparr> floor = f, index = i, is_booked = False,
       number = (if f < 10 then (f * 100) + (i + 1) else 1000 + (i + 1)) \<rparr>"

text \<open>
  \<open>HotelSystem\<close> holds the list of room objects and the numbers of the most recent
  booking. The list \<open>rooms\<close> is the store: a room object is identified by its position in
  that list (a \<open>ref\<close>), so that two objects with equal fields stay two objects and a
  mutation through one reference is seen through every other.
\<close>

record hotel =
  rooms :: "room list"
  last_booked_ids :: "int list"

type_synonym ref = nat

text \<open>
  \<open>_init_hotel\<close>: floors \<open>range(1, 11)\<close>, on each floor \<open>range(count)\<close> with
  \<open>count = 7 if f == 10 else 10\<close>, appended floor by floor.
\<close>

definition init_hotel :: "room list" where
  "init_hotel =
     concat (map (\<lambda>f. map (\<lambda>i. Room f i) [0 .. (if f = 10 then 7 else 10) - 1]) [1 .. 10])"

text \<open>\<open>HotelSystem.__init__\<close>.\<close>

definition HotelSystem :: hotel where
  "HotelSystem = \<lparr> rooms = init_hotel, last_booked_ids = [] \<rparr>"

section \<open>\<open>book_rooms\<close>\<close>

text \<open>
  What \<open>book_rooms\<close> prints, one constructor per message. The three error messages carry
  the names the specification gives them; \<open>Booked\<close> stands for the two success lines (the
  room numbers and the travel cost metric). The grid drawn by \<open>print_grid\<close> after a success
  reads the state only and is left out.
\<close>

datatype message =
    InvalidCount
  | InsufficientInventory
  | CrossFloorInfo
  | Booked "int list" "int option"
  | NoArrangementFound

text \<open>
  \<open>min_cost\<close> starts as \<open>float('inf')\<close> and is otherwise an integer: \<open>None\<close> is infinity.
  \<open>cost < min_cost\<close> is then:
\<close>

definition cost_less :: "int \<Rightarrow> int option \<Rightarrow> bool" where
  "cost_less c m = (case m of None \<Rightarrow> True | Some m' \<Rightarrow> c < m')"

text \<open>\<open>available = [r for r in self.rooms if not r.is_booked]\<close>, as references.\<close>

definition available_rooms :: "room list \<Rightarrow> ref list" where
  "available_rooms rs = filter (\<lambda>r. \<not> is_booked (rs ! r)) [0 ..< length rs]"

text \<open>
  The dictionary \<open>floors\<close> keeps its keys in insertion order, and the loop over
  \<open>floors.items()\<close> follows that order: it is an association list. \<open>floors_add\<close> is one
  round of the grouping loop (create the key's list if the key is new, then append).
\<close>

fun floors_add :: "(int \<times> ref list) list \<Rightarrow> int \<Rightarrow> ref \<Rightarrow> (int \<times> ref list) list" where
  "floors_add [] f r = [(f, [r])]"
| "floors_add ((g, xs) # fs) f r =
     (if g = f then (g, xs @ [r]) # fs else (g, xs) # floors_add fs f r)"

definition group_by_floor :: "room list \<Rightarrow> ref list \<Rightarrow> (int \<times> ref list) list" where
  "group_by_floor rs available = foldl (\<lambda>fs r. floors_add fs (floor (rs ! r)) r) [] available"

text \<open>
  The slices \<open>xs[i : i+n]\<close> for \<open>i in range(len(xs) - n + 1)\<close>, in that order. For a
  natural number \<open>n\<close> the range has \<open>Suc (length xs) - n\<close> elements (none when
  \<open>length xs < n\<close>, as in Python).
\<close>

definition windows :: "nat \<Rightarrow> 'a list \<Rightarrow> 'a list list" where
  "windows n xs = map (\<lambda>i. take n (drop i xs)) [0 ..< Suc (length xs) - n]"

text \<open>\<open>cost = subset[-1].index - subset[0].index\<close> (the window is \<open>subset'\<close> here).\<close>

definition same_floor_cost :: "room list \<Rightarrow> ref list \<Rightarrow> int" where
  "same_floor_cost rs subset' = index (rs ! last subset') - index (rs ! hd subset')"

text \<open>
  The search state is \<open>(best_set, min_cost, found_same_floor)\<close>. One round of the inner
  loop of priority 1:
\<close>

definition same_floor_step ::
  "room list \<Rightarrow> ref list \<times> int option \<times> bool \<Rightarrow> ref list \<Rightarrow> ref list \<times> int option \<times> bool" where
  "same_floor_step rs st subset' =
     (case st of (best_set, min_cost, found_same_floor) \<Rightarrow>
        let cost = same_floor_cost rs subset' in
        if cost_less cost min_cost then (subset', Some cost, True)
        else (best_set, min_cost, found_same_floor))"

text \<open>
  One round of the loop over \<open>floors.items()\<close>: a floor with at least \<open>n\<close> available rooms
  is sorted by index (\<open>list.sort\<close> is stable, as \<open>sort_key\<close> is) and scanned by windows.
\<close>

definition same_floor_scan ::
  "room list \<Rightarrow> nat \<Rightarrow> ref list \<times> int option \<times> bool \<Rightarrow> int \<times> ref list
     \<Rightarrow> ref list \<times> int option \<times> bool" where
  "same_floor_scan rs n st entry =
     (case entry of (f, floor_rooms) \<Rightarrow>
        if n \<le> length floor_rooms
        then foldl (same_floor_step rs) st
               (windows n (sort_key (\<lambda>r. index (rs ! r)) floor_rooms))
        else st)"

definition same_floor_search ::
  "room list \<Rightarrow> nat \<Rightarrow> ref list \<Rightarrow> ref list \<times> int option \<times> bool" where
  "same_floor_search rs n available =
     foldl (same_floor_scan rs n) ([], None, False) (group_by_floor rs available)"

text \<open>
  Python's \<open>max\<close> and \<open>min\<close> of a list. On the empty list Python raises; the equations
  leave that case out, and every window they are applied to has \<open>n \<ge> 1\<close> elements
  (lemma \<open>windows_length\<close>).
\<close>

fun max_list :: "int list \<Rightarrow> int" where
  "max_list (x # xs) = fold max xs x"

fun min_list :: "int list \<Rightarrow> int" where
  "min_list (x # xs) = fold min xs x"

text \<open>The proximity score \<open>(r.floor * 2) + r.index\<close>, the sort key of priority 2.\<close>

definition score :: "room list \<Rightarrow> ref \<Rightarrow> int" where
  "score rs r = (floor (rs ! r) * 2) + index (rs ! r)"

text \<open>The bounding-box cost of a window, \<open>total_cost = v_cost + h_cost\<close>.\<close>

definition total_cost :: "room list \<Rightarrow> ref list \<Rightarrow> int" where
  "total_cost rs subset' =
     (let floors = map (\<lambda>r. floor (rs ! r)) subset';
          indexes = map (\<lambda>r. index (rs ! r)) subset';
          v_cost = (max_list floors - min_list floors) * 2;
          h_cost = (max_list indexes - min_list indexes) * 1
      in v_cost + h_cost)"

definition cross_floor_step ::
  "room list \<Rightarrow> ref list \<times> int option \<Rightarrow> ref list \<Rightarrow> ref list \<times> int option" where
  "cross_floor_step rs st subset' =
     (case st of (best_set, min_cost) \<Rightarrow>
        let cost = total_cost rs subset' in
        if cost_less cost min_cost then (subset', Some cost) else (best_set, min_cost))"

text \<open>
  Priority 2: \<open>sorted\<close> (stable) by score, \<open>min_cost\<close> reset to infinity, \<open>best_set\<close> as
  priority 1 left it.
\<close>

definition cross_floor_search ::
  "room list \<Rightarrow> nat \<Rightarrow> ref list \<Rightarrow> ref list \<Rightarrow> ref list \<times> int option" where
  "cross_floor_search rs n available best_set =
     foldl (cross_floor_step rs) (best_set, None)
       (windows n (sort_key (score rs) available))"

text \<open>
  The two search stages together: the chosen references, the cost, and whether the
  cross-floor stage ran (\<open>not found_same_floor\<close>).
\<close>

definition select_rooms :: "room list \<Rightarrow> nat \<Rightarrow> ref list \<Rightarrow> ref list \<times> int option \<times> bool" where
  "select_rooms rs n available =
     (case same_floor_search rs n available of (best_set, min_cost, found_same_floor) \<Rightarrow>
        if \<not> found_same_floor
        then (case cross_floor_search rs n available best_set of
                (best_set', min_cost') \<Rightarrow> (best_set', min_cost', True))
        else (best_set, min_cost, False))"

text \<open>
  One round of the commit loop: \<open>r.is_booked = True\<close>, then the number of that object is
  appended to \<open>last_booked_ids\<close> (and to \<open>room_nums\<close>, which holds the same numbers).
\<close>

definition commit_step :: "room list \<times> int list \<Rightarrow> ref \<Rightarrow> room list \<times> int list" where
  "commit_step st r =
     (case st of (rs, ids) \<Rightarrow>
        let r' = (rs ! r)\<lparr>is_booked := True\<rparr> in (rs[r := r'], ids @ [number r']))"

text \<open>
  \<open>book_rooms\<close>: the messages printed and the state after the call. The count is checked
  as an integer; the search stages run with \<open>nat n\<close> once \<open>1 \<le> n \<le> 5\<close> is known.
\<close>

definition book_rooms :: "hotel \<Rightarrow> int \<Rightarrow> message list \<times> hotel" where
  "book_rooms h n =
     (if \<not> (1 \<le> n \<and> n \<le> 5) then ([InvalidCount], h)
      else
        let available = available_rooms (rooms h) in
        if int (length available) < n then ([InsufficientInventory], h)
        else
          (case select_rooms (rooms h) (nat n) available of (best_set, min_cost, cross) \<Rightarrow>
             let info = (if cross then [CrossFloorInfo] else []) in
             if best_set \<noteq> [] then
               (case foldl commit_step (rooms h, []) best_set of (rs', ids) \<Rightarrow>
                  (info @ [Booked ids min_cost], \<lparr> rooms = rs', last_booked_ids = ids \<rparr>))
             else (info @ [NoArrangementFound], h)))"

section \<open>Notions used in the statements\<close>

text \<open>
  The definitions of this section are not part of the program: they name what the
  properties below talk about.
\<close>

text \<open>
  One round of either scanning loop, for any cost function: the window replaces the best
  one when it is strictly cheaper. Both loops of \<open>book_rooms\<close> are instances
  (lemmas \<open>same_floor_step_scan\<close> and \<open>cross_floor_step_scan\<close>).
\<close>

definition scan_step ::
  "('a \<Rightarrow> int) \<Rightarrow> 'a \<times> int option \<times> bool \<Rightarrow> 'a \<Rightarrow> 'a \<times> int option \<times> bool" where
  "scan_step cost st w =
     (case st of (b, m, fd) \<Rightarrow>
        if cost_less (cost w) m then (w, Some (cost w), True) else (b, m, fd))"

text \<open>
  Position \<open>i\<close> holds the first window of \<open>ws\<close> that attains the minimum cost: no
  window is cheaper, and every earlier one is strictly dearer.
\<close>

definition first_min_at :: "('a \<Rightarrow> int) \<Rightarrow> 'a list \<Rightarrow> nat \<Rightarrow> bool" where
  "first_min_at cost ws i \<longleftrightarrow>
     i < length ws \<and> (\<forall>j < length ws. cost (ws ! i) \<le> cost (ws ! j)) \<and>
     (\<forall>j < i. cost (ws ! i) < cost (ws ! j))"

text \<open>The windows that priority 1 scans on one entry of \<open>floors\<close>, and on all of them in order.\<close>

definition floor_windows :: "room list \<Rightarrow> nat \<Rightarrow> int \<times> ref list \<Rightarrow> ref list list" where
  "floor_windows rs n entry =
     (if n \<le> length (snd entry)
      then windows n (sort_key (\<lambda>r. index (rs ! r)) (snd entry)) else [])"

definition same_floor_windows :: "room list \<Rightarrow> nat \<Rightarrow> ref list \<Rightarrow> ref list list" where
  "same_floor_windows rs n available =
     concat (map (floor_windows rs n) (group_by_floor rs available))"

text \<open>The available rooms of floor \<open>f\<close>, as references and as a count over the store.\<close>

definition on_floor :: "room list \<Rightarrow> int \<Rightarrow> ref list \<Rightarrow> ref list" where
  "on_floor rs f available = filter (\<lambda>r. floor (rs ! r) = f) available"

definition available_on :: "room list \<Rightarrow> int \<Rightarrow> nat" where
  "available_on rs f = length (filter (\<lambda>r. floor r = f \<and> \<not> is_booked r) rs)"

text \<open>The store in which exactly the rooms of \<open>best\<close> have been marked booked.\<close>

definition mark_booked :: "room list \<Rightarrow> ref list \<Rightarrow> room list" where
  "mark_booked rs best =
     map (\<lambda>i. if i \<in> set best then (rs ! i)\<lparr>is_booked := True\<rparr> else rs ! i) [0 ..< length rs]"

text \<open>
  The state of the hotel in which exactly the rooms at the listed \<open>(floor, index)\<close>
  positions are free, as \<open>generate_random\<close> can leave it (it sets the flag of every room
  and empties \<open>last_booked_ids\<close>).
\<close>

definition occupancy :: "(int \<times> int) list \<Rightarrow> hotel" where
  "occupancy free =
     \<lparr> rooms = map (\<lambda>r. r\<lparr>is_booked := (floor r, index r) \<notin> set free\<rparr>) init_hotel,
       last_booked_ids = [] \<rparr>"

text \<open>
  Two occupancies used as concrete inputs: two free rooms (indices 0 and 1) on every
  floor, and three free rooms in all, at \<open>(1, 4)\<close>, \<open>(2, 4)\<close> and \<open>(3, 0)\<close>.
\<close>

definition two_free_per_floor :: hotel where
  "two_free_per_floor = occupancy (concat (map (\<lambda>f. [(f, 0), (f, 1)]) [1 .. 10]))"

definition fragmented :: hotel where
  "fragmented = occupancy [(1, 4), (2, 4), (3, 0)]"

text \<open>
  No two rooms of the store share a \<open>(floor, index)\<close> position, and the occupancy in
  which only the rooms at \<open>(2, 3)\<close> and \<open>(2, 4)\<close> are free.
\<close>

definition positions_distinct :: "room list \<Rightarrow> bool" where
  "positions_distinct rs = distinct (map (\<lambda>r. (floor r, index r)) rs)"

definition pair_free :: hotel where
  "pair_free = occupancy [(2, 3), (2, 4)]"

text \<open>
  An occupancy in which the ten rooms of floor 1 are free, together with three rooms of
  floor 2 and one of floor 5.
\<close>

definition first_floor_free :: hotel where
  "first_floor_free =
     occupancy (map (\<lambda>i. (1, i)) [0 .. 9] @ [(2, 0), (2, 1), (2, 2), (5, 5)])"

section \<open>Room numbers\<close>

lemma init_hotel_length: "length init_hotel = 97"
  by code_simp

text \<open>
  C10. In the hotel that \<open>_init_hotel\<close> builds (floors 1 to 10, ten rooms on each floor
  but seven on floor 10) no two rooms have the same number.
\<close>

theorem init_hotel_numbers_distinct: "distinct (map number init_hotel)"
  by code_simp

section \<open>Windows and the scanning loops\<close>

lemma windows_length_list: "length (windows n xs) = Suc (length xs) - n"
  by (simp add: windows_def)

lemma windows_nth: "i < Suc (length xs) - n \<Longrightarrow> windows n xs ! i = take n (drop i xs)"
  by (simp add: windows_def)

lemma windows_length: "w \<in> set (windows n xs) \<Longrightarrow> length w = n"
  by (auto simp: windows_def)

lemma windows_subset: "w \<in> set (windows n xs) \<Longrightarrow> set w \<subseteq> set xs"
  by (auto simp: windows_def dest: in_set_takeD in_set_dropD)

lemma windows_distinct: "distinct xs \<Longrightarrow> w \<in> set (windows n xs) \<Longrightarrow> distinct w"
  by (auto simp: windows_def)

lemma windows_nonempty: "windows n xs \<noteq> [] \<longleftrightarrow> n \<le> length xs"
  by (auto simp: windows_def)

lemma scan_first_min:
  "ws \<noteq> [] \<Longrightarrow>
   \<exists>i. first_min_at cost ws i \<and>
       foldl (scan_step cost) (b0, None, fd0) ws = (ws ! i, Some (cost (ws ! i)), True)"
proof (induction ws rule: rev_induct)
  case Nil
  then show ?case by simp
next
  case (snoc w ws)
  show ?case
  proof (cases "ws = []")
    case True
    then show ?thesis
      by (auto simp: first_min_at_def scan_step_def cost_less_def)
  next
    case False
    with snoc.IH obtain i where i: "first_min_at cost ws i"
      and r: "foldl (scan_step cost) (b0, None, fd0) ws = (ws ! i, Some (cost (ws ! i)), True)"
      by blast
    from i have il: "i < length ws" by (simp add: first_min_at_def)
    show ?thesis
    proof (cases "cost w < cost (ws ! i)")
      case True
      have "first_min_at cost (ws @ [w]) (length ws)"
        using i True unfolding first_min_at_def
        by (auto simp: nth_append less_Suc_eq)
      moreover have "foldl (scan_step cost) (b0, None, fd0) (ws @ [w]) =
          ((ws @ [w]) ! length ws, Some (cost ((ws @ [w]) ! length ws)), True)"
        using r True by (simp add: scan_step_def cost_less_def)
      ultimately show ?thesis by blast
    next
      case nless: False
      have "first_min_at cost (ws @ [w]) i"
        using i nless unfolding first_min_at_def
        by (auto simp: nth_append less_Suc_eq)
      moreover have "foldl (scan_step cost) (b0, None, fd0) (ws @ [w]) =
          ((ws @ [w]) ! i, Some (cost ((ws @ [w]) ! i)), True)"
        using r nless il by (simp add: scan_step_def cost_less_def nth_append)
      ultimately show ?thesis by blast
    qed
  qed
qed

lemma same_floor_step_scan: "same_floor_step rs = scan_step (same_floor_cost rs)"
  by (simp add: fun_eq_iff same_floor_step_def scan_step_def)

lemma cross_floor_step_scan:
  "foldl (cross_floor_step rs) (b, m) ws =
     (case foldl (scan_step (total_cost rs)) (b, m, fd) ws of (b', m', _) \<Rightarrow> (b', m'))"
  by (induction ws arbitrary: b m fd) (auto simp: cross_floor_step_def scan_step_def)

section \<open>Grouping by floor\<close>

lemma floors_add_closed:
  "distinct (map fst fs) \<Longrightarrow>
   floors_add fs f r =
     (if f \<in> fst ` set fs
      then map (\<lambda>e. if fst e = f then (fst e, snd e @ [r]) else e) fs
      else fs @ [(f, [r])])"
proof (induction fs)
  case Nil
  then show ?case by simp
next
  case (Cons e fs)
  obtain g xs where e: "e = (g, xs)" by (cases e)
  from Cons.prems have d: "distinct (map fst fs)" and g: "g \<notin> fst ` set fs"
    by (auto simp: e)
  have same: "map (\<lambda>e. if fst e = g then (fst e, snd e @ [r]) else e) fs = fs"
    using g by (induction fs) auto
  show ?case
    using Cons.IH [OF d] g same by (auto simp: e)
qed

lemma floors_add_keys:
  "map fst (map (\<lambda>e. if fst e = f then (fst e, snd e @ [r]) else e) g) = map fst g"
  by (induction g) auto

lemma group_by_floor_snoc:
  "group_by_floor rs (av @ [r]) = floors_add (group_by_floor rs av) (floor (rs ! r)) r"
  by (simp add: group_by_floor_def)

lemma group_by_floor_inv:
  "distinct (map fst (group_by_floor rs av)) \<and>
   fst ` set (group_by_floor rs av) = (\<lambda>r. floor (rs ! r)) ` set av \<and>
   (\<forall>e \<in> set (group_by_floor rs av). snd e = on_floor rs (fst e) av)"
proof (induction av rule: rev_induct)
  case Nil
  show ?case by (simp add: group_by_floor_def)
next
  case (snoc r av)
  let ?g = "group_by_floor rs av"
  let ?f = "floor (rs ! r)"
  from snoc.IH have d: "distinct (map fst ?g)"
    and k: "fst ` set ?g = (\<lambda>r. floor (rs ! r)) ` set av"
    and c: "\<forall>e \<in> set ?g. snd e = on_floor rs (fst e) av"
    by blast+
  note step = floors_add_closed [OF d, of ?f r]
  show ?case
  proof (cases "?f \<in> fst ` set ?g")
    case True
    then have eq: "group_by_floor rs (av @ [r]) =
        map (\<lambda>e. if fst e = ?f then (fst e, snd e @ [r]) else e) ?g"
      using step by (simp add: group_by_floor_snoc)
    have keys: "map fst (map (\<lambda>e. if fst e = ?f then (fst e, snd e @ [r]) else e) ?g) = map fst ?g"
      by (rule floors_add_keys)
    have keys': "map fst (group_by_floor rs (av @ [r])) = map fst ?g"
      unfolding eq by (rule keys)
    have "distinct (map fst (group_by_floor rs (av @ [r])))"
      unfolding keys' by (rule d)
    moreover have "fst ` set (group_by_floor rs (av @ [r])) = (\<lambda>r. floor (rs ! r)) ` set (av @ [r])"
    proof -
      have "fst ` set (group_by_floor rs (av @ [r])) = fst ` set ?g"
        using keys' by (metis set_map)
      then show ?thesis using k True by auto
    qed
    moreover have "\<forall>e \<in> set (group_by_floor rs (av @ [r])). snd e = on_floor rs (fst e) (av @ [r])"
      using c by (auto simp: eq on_floor_def)
    ultimately show ?thesis by blast
  next
    case False
    then have eq: "group_by_floor rs (av @ [r]) = ?g @ [(?f, [r])]"
      using step by (simp add: group_by_floor_snoc)
    have nokey: "?f \<notin> (\<lambda>r. floor (rs ! r)) ` set av"
      using False k by simp
    have none: "on_floor rs ?f av = []"
      unfolding on_floor_def filter_empty_conv using nokey by (metis imageI)
    have "distinct (map fst (group_by_floor rs (av @ [r])))"
      using d False by (simp add: eq)
    moreover have "fst ` set (group_by_floor rs (av @ [r])) = (\<lambda>r. floor (rs ! r)) ` set (av @ [r])"
      using k by (auto simp: eq)
    moreover have "\<forall>e \<in> set (group_by_floor rs (av @ [r])). snd e = on_floor rs (fst e) (av @ [r])"
      using c none False by (auto simp: eq on_floor_def)
    ultimately show ?thesis by blast
  qed
qed

lemma group_by_floor_entry:
  "e \<in> set (group_by_floor rs av) \<Longrightarrow> snd e = on_floor rs (fst e) av"
  using group_by_floor_inv by blast

lemma group_by_floor_has:
  assumes "r \<in> set av"
  shows "(floor (rs ! r), on_floor rs (floor (rs ! r)) av) \<in> set (group_by_floor rs av)"
proof -
  have "floor (rs ! r) \<in> fst ` set (group_by_floor rs av)"
    using assms group_by_floor_inv [of rs av] by blast
  then obtain e where e: "e \<in> set (group_by_floor rs av)" and f: "fst e = floor (rs ! r)"
    by auto
  then have "e = (floor (rs ! r), on_floor rs (floor (rs ! r)) av)"
    using group_by_floor_entry [OF e] by (simp add: prod_eq_iff)
  with e show ?thesis by simp
qed

lemma floors_add_hd: "fs \<noteq> [] \<Longrightarrow> fst (hd (floors_add fs f r)) = fst (hd fs) \<and> floors_add fs f r \<noteq> []"
  by (cases fs) (auto split: if_splits)

lemma group_by_floor_hd:
  "group_by_floor rs (a # av) \<noteq> [] \<and> fst (hd (group_by_floor rs (a # av))) = floor (rs ! a)"
proof (induction av rule: rev_induct)
  case Nil
  show ?case by (simp add: group_by_floor_def)
next
  case (snoc r av)
  have "group_by_floor rs (a # av @ [r]) = floors_add (group_by_floor rs (a # av)) (floor (rs ! r)) r"
    using group_by_floor_snoc [of rs "a # av" r] by simp
  then show ?case using snoc.IH floors_add_hd by metis
qed

lemma same_floor_scan_windows:
  "foldl (same_floor_scan rs n) st g =
     foldl (same_floor_step rs) st (concat (map (floor_windows rs n) g))"
  by (induction g arbitrary: st)
     (auto simp: same_floor_scan_def floor_windows_def split: prod.splits)

lemma same_floor_search_windows:
  "same_floor_search rs n av =
     foldl (scan_step (same_floor_cost rs)) ([], None, False) (same_floor_windows rs n av)"
  by (simp add: same_floor_search_def same_floor_windows_def same_floor_scan_windows
      same_floor_step_scan)

lemma same_floor_windows_nonempty:
  assumes "0 < n"
  shows "same_floor_windows rs n av \<noteq> [] \<longleftrightarrow> (\<exists>f. n \<le> length (on_floor rs f av))"
proof
  assume "same_floor_windows rs n av \<noteq> []"
  then obtain e where e: "e \<in> set (group_by_floor rs av)" and w: "floor_windows rs n e \<noteq> []"
    by (auto simp: same_floor_windows_def)
  from w have "n \<le> length (snd e)" by (auto simp: floor_windows_def split: if_splits)
  then show "\<exists>f. n \<le> length (on_floor rs f av)"
    using group_by_floor_entry [OF e] by auto
next
  assume "\<exists>f. n \<le> length (on_floor rs f av)"
  then obtain f where f: "n \<le> length (on_floor rs f av)" by blast
  with assms have "on_floor rs f av \<noteq> []" by auto
  then obtain r where r: "r \<in> set av" and fr: "floor (rs ! r) = f"
    by (auto simp: on_floor_def filter_empty_conv)
  have e: "(f, on_floor rs f av) \<in> set (group_by_floor rs av)"
    using group_by_floor_has [OF r, of rs] fr by simp
  have "floor_windows rs n (f, on_floor rs f av) \<noteq> []"
    using f by (simp add: floor_windows_def windows_nonempty)
  then show "same_floor_windows rs n av \<noteq> []"
    using e by (auto simp: same_floor_windows_def)
qed

lemma same_floor_windows_member:
  assumes "w \<in> set (same_floor_windows rs n av)"
  shows "\<exists>f. n \<le> length (on_floor rs f av) \<and>
             w \<in> set (windows n (sort_key (\<lambda>r. index (rs ! r)) (on_floor rs f av)))"
proof -
  from assms obtain e where e: "e \<in> set (group_by_floor rs av)" and w: "w \<in> set (floor_windows rs n e)"
    by (auto simp: same_floor_windows_def)
  from w have "n \<le> length (snd e)" "w \<in> set (windows n (sort_key (\<lambda>r. index (rs ! r)) (snd e)))"
    by (auto simp: floor_windows_def split: if_splits)
  then show ?thesis using group_by_floor_entry [OF e] by auto
qed

section \<open>The two search stages\<close>

lemma available_rooms_set:
  "set (available_rooms rs) = {r. r < length rs \<and> \<not> is_booked (rs ! r)}"
  by (auto simp: available_rooms_def)

lemma available_rooms_distinct: "distinct (available_rooms rs)"
  by (simp add: available_rooms_def)

lemma available_rooms_map: "map ((!) rs) (available_rooms rs) = filter (\<lambda>r. \<not> is_booked r) rs"
proof -
  have "filter (\<lambda>r. \<not> is_booked r) (map ((!) rs) [0 ..< length rs]) =
        map ((!) rs) (filter ((\<lambda>r. \<not> is_booked r) \<circ> (!) rs) [0 ..< length rs])"
    by (rule filter_map)
  then show ?thesis
    by (simp add: available_rooms_def map_nth comp_def)
qed

lemma available_rooms_length:
  "length (available_rooms rs) = length (filter (\<lambda>r. \<not> is_booked r) rs)"
  using available_rooms_map [of rs] by (metis length_map)

lemma on_floor_available:
  "length (on_floor rs f (available_rooms rs)) = available_on rs f"
proof -
  have "map ((!) rs) (on_floor rs f (available_rooms rs)) =
        filter (\<lambda>r. floor r = f) (map ((!) rs) (available_rooms rs))"
    by (simp add: on_floor_def filter_map comp_def)
  also have "\<dots> = filter (\<lambda>r. floor r = f \<and> \<not> is_booked r) rs"
    by (simp add: available_rooms_map conj_commute)
  finally show ?thesis
    unfolding available_on_def by (metis length_map)
qed

lemma select_rooms_same_floor:
  assumes "0 < n" and "\<exists>f. n \<le> length (on_floor rs f av)"
  shows "\<exists>i. first_min_at (same_floor_cost rs) (same_floor_windows rs n av) i \<and>
             select_rooms rs n av =
               (same_floor_windows rs n av ! i,
                Some (same_floor_cost rs (same_floor_windows rs n av ! i)), False)"
proof -
  have ne: "same_floor_windows rs n av \<noteq> []"
    using assms same_floor_windows_nonempty by blast
  from scan_first_min [OF ne, of "same_floor_cost rs" "[]" False]
  obtain i where i: "first_min_at (same_floor_cost rs) (same_floor_windows rs n av) i"
    and r: "same_floor_search rs n av =
              (same_floor_windows rs n av ! i,
               Some (same_floor_cost rs (same_floor_windows rs n av ! i)), True)"
    unfolding same_floor_search_windows by blast
  have "select_rooms rs n av =
          (same_floor_windows rs n av ! i,
           Some (same_floor_cost rs (same_floor_windows rs n av ! i)), False)"
    by (simp add: select_rooms_def r)
  with i show ?thesis by blast
qed

lemma cross_floor_search_first_min:
  assumes "n \<le> length av"
  shows "\<exists>i. first_min_at (total_cost rs) (windows n (sort_key (score rs) av)) i \<and>
             cross_floor_search rs n av b0 =
               (windows n (sort_key (score rs) av) ! i,
                Some (total_cost rs (windows n (sort_key (score rs) av) ! i)))"
proof -
  let ?ws = "windows n (sort_key (score rs) av)"
  have ne: "?ws \<noteq> []" using assms by (simp add: windows_nonempty)
  from scan_first_min [OF ne, of "total_cost rs" b0 False]
  obtain i where i: "first_min_at (total_cost rs) ?ws i"
    and r: "foldl (scan_step (total_cost rs)) (b0, None, False) ?ws =
              (?ws ! i, Some (total_cost rs (?ws ! i)), True)"
    by blast
  have "cross_floor_search rs n av b0 = (?ws ! i, Some (total_cost rs (?ws ! i)))"
    unfolding cross_floor_search_def
    by (simp add: cross_floor_step_scan [where fd = False] r)
  with i show ?thesis by blast
qed

lemma select_rooms_cross_floor:
  assumes "0 < n" and "n \<le> length av" and "\<not> (\<exists>f. n \<le> length (on_floor rs f av))"
  shows "\<exists>i. first_min_at (total_cost rs) (windows n (sort_key (score rs) av)) i \<and>
             select_rooms rs n av =
               (windows n (sort_key (score rs) av) ! i,
                Some (total_cost rs (windows n (sort_key (score rs) av) ! i)), True)"
proof -
  have "same_floor_windows rs n av = []"
    using assms same_floor_windows_nonempty by blast
  then have s: "same_floor_search rs n av = ([], None, False)"
    by (simp add: same_floor_search_windows)
  from cross_floor_search_first_min [OF assms(2), of rs "[]"]
  obtain i where i: "first_min_at (total_cost rs) (windows n (sort_key (score rs) av)) i"
    and r: "cross_floor_search rs n av [] =
               (windows n (sort_key (score rs) av) ! i,
                Some (total_cost rs (windows n (sort_key (score rs) av) ! i)))"
    by blast
  have "select_rooms rs n av =
               (windows n (sort_key (score rs) av) ! i,
                Some (total_cost rs (windows n (sort_key (score rs) av) ! i)), True)"
    by (simp add: select_rooms_def s r)
  with i show ?thesis by blast
qed

lemma first_min_at_member: "first_min_at cost ws i \<Longrightarrow> ws ! i \<in> set ws"
  by (simp add: first_min_at_def)

lemma select_rooms_cross_iff:
  assumes "0 < n" and "n \<le> length av" and "select_rooms rs n av = (best, c, x)"
  shows "x \<longleftrightarrow> \<not> (\<exists>f. n \<le> length (on_floor rs f av))"
  using assms select_rooms_same_floor [of n rs av] select_rooms_cross_floor [of n av rs]
  by (cases "\<exists>f. n \<le> length (on_floor rs f av)") auto

lemma select_rooms_window:
  assumes "0 < n" and "n \<le> length av" and "distinct av"
    and "select_rooms rs n av = (best, c, x)"
  shows "length best = n \<and> distinct best \<and> set best \<subseteq> set av \<and> c \<noteq> None"
proof (cases "\<exists>f. n \<le> length (on_floor rs f av)")
  case True
  from select_rooms_same_floor [OF assms(1) True] assms(4)
  obtain i where i: "first_min_at (same_floor_cost rs) (same_floor_windows rs n av) i"
    and b: "best = same_floor_windows rs n av ! i" and c: "c \<noteq> None"
    by auto
  from first_min_at_member [OF i] b have "best \<in> set (same_floor_windows rs n av)" by simp
  from same_floor_windows_member [OF this]
  obtain f where w: "best \<in> set (windows n (sort_key (\<lambda>r. index (rs ! r)) (on_floor rs f av)))"
    by blast
  have "distinct (sort_key (\<lambda>r. index (rs ! r)) (on_floor rs f av))"
    using assms(3) by (simp add: on_floor_def)
  then have "distinct best" using w windows_distinct by blast
  moreover have "set best \<subseteq> set av"
    using windows_subset [OF w] by (auto simp: on_floor_def)
  moreover have "length best = n" using w by (rule windows_length)
  ultimately show ?thesis using c by simp
next
  case False
  from select_rooms_cross_floor [OF assms(1,2) False] assms(4)
  obtain i where i: "first_min_at (total_cost rs) (windows n (sort_key (score rs) av)) i"
    and b: "best = windows n (sort_key (score rs) av) ! i" and c: "c \<noteq> None"
    by auto
  from first_min_at_member [OF i] b
  have w: "best \<in> set (windows n (sort_key (score rs) av))" by simp
  have "distinct best" using w windows_distinct assms(3) by (metis distinct_sort)
  moreover have "set best \<subseteq> set av" using windows_subset [OF w] by simp
  moreover have "length best = n" using w by (rule windows_length)
  ultimately show ?thesis using c by simp
qed

lemma commit_step_pair:
  "commit_step (rs, ids) r = (rs[r := (rs ! r)\<lparr>is_booked := True\<rparr>], ids @ [number (rs ! r)])"
  by (simp add: commit_step_def)

lemma commit_fold:
  "foldl commit_step (rs, ids) best = (rs', ids') \<Longrightarrow>
   length rs' = length rs \<and>
   (\<forall>i < length rs. rs' ! i = (if i \<in> set best then (rs ! i)\<lparr>is_booked := True\<rparr> else rs ! i)) \<and>
   ids' = ids @ map (\<lambda>r. number (rs ! r)) best"
proof (induction best arbitrary: rs ids)
  case Nil
  then show ?case by simp
next
  case (Cons r best)
  let ?rs1 = "rs[r := (rs ! r)\<lparr>is_booked := True\<rparr>]"
  from Cons.prems have "foldl commit_step (?rs1, ids @ [number (rs ! r)]) best = (rs', ids')"
    by (simp add: commit_step_pair)
  from Cons.IH [OF this]
  have l: "length rs' = length rs"
    and u: "\<forall>i < length rs. rs' ! i = (if i \<in> set best then (?rs1 ! i)\<lparr>is_booked := True\<rparr> else ?rs1 ! i)"
    and n: "ids' = (ids @ [number (rs ! r)]) @ map (\<lambda>r. number (?rs1 ! r)) best"
    by simp_all
  have num: "number (?rs1 ! k) = number (rs ! k)" for k
    by (cases "r < length rs") (auto simp: nth_list_update list_update_beyond)
  have nth1: "?rs1 ! i = (if i = r then (rs ! r)\<lparr>is_booked := True\<rparr> else rs ! i)"
    if "i < length rs" for i
    using that by (simp add: nth_list_update)
  have "rs' ! i = (if i \<in> set (r # best) then (rs ! i)\<lparr>is_booked := True\<rparr> else rs ! i)"
    if "i < length rs" for i
  proof -
    from u that
    have "rs' ! i = (if i \<in> set best then (?rs1 ! i)\<lparr>is_booked := True\<rparr> else ?rs1 ! i)"
      by blast
    then show ?thesis
      unfolding nth1 [OF that] by (cases "i = r") simp_all
  qed
  then have "\<forall>i < length rs. rs' ! i = (if i \<in> set (r # best) then (rs ! i)\<lparr>is_booked := True\<rparr> else rs ! i)"
    by blast
  moreover have "ids' = ids @ map (\<lambda>r. number (rs ! r)) (r # best)"
    using n by (simp add: num)
  ultimately show ?case using l by blast
qed

lemma commit_mark_booked:
  "foldl commit_step (rs, []) best = (mark_booked rs best, map (\<lambda>r. number (rs ! r)) best)"
proof -
  obtain rs' ids' where r: "foldl commit_step (rs, []) best = (rs', ids')"
    by (cases "foldl commit_step (rs, []) best")
  from commit_fold [OF r] have "rs' = mark_booked rs best" "ids' = map (\<lambda>r. number (rs ! r)) best"
    by (auto simp: mark_booked_def intro!: nth_equalityI)
  with r show ?thesis by simp
qed

lemma book_rooms_select:
  assumes "1 \<le> n" and "n \<le> 5" and "n \<le> int (length (available_rooms (rooms h)))"
    and "select_rooms (rooms h) (nat n) (available_rooms (rooms h)) = (best, c, x)"
  shows "length best = nat n \<and> distinct best \<and> set best \<subseteq> set (available_rooms (rooms h)) \<and>
         c \<noteq> None \<and>
         (x \<longleftrightarrow> (\<forall>f. int (available_on (rooms h) f) < n)) \<and>
         book_rooms h n =
           ((if x then [CrossFloorInfo] else []) @ [Booked (map (\<lambda>r. number (rooms h ! r)) best) c],
            \<lparr> rooms = mark_booked (rooms h) best,
              last_booked_ids = map (\<lambda>r. number (rooms h ! r)) best \<rparr>)"
proof -
  let ?av = "available_rooms (rooms h)"
  have n0: "0 < nat n" and nl: "nat n \<le> length ?av" using assms(1,3) by auto
  from select_rooms_window [OF n0 nl available_rooms_distinct assms(4)]
  have w: "length best = nat n" "distinct best" "set best \<subseteq> set ?av" "c \<noteq> None"
    by simp_all
  have ne: "best \<noteq> []" using w(1) n0 by auto
  have "x \<longleftrightarrow> \<not> (\<exists>f. nat n \<le> length (on_floor (rooms h) f ?av))"
    by (rule select_rooms_cross_iff [OF n0 nl assms(4)])
  moreover have "nat n \<le> k \<longleftrightarrow> \<not> int k < n" for k
    using assms(1) by arith
  ultimately have x: "x \<longleftrightarrow> (\<forall>f. int (available_on (rooms h) f) < n)"
    by (simp add: on_floor_available)
  have "book_rooms h n =
           ((if x then [CrossFloorInfo] else []) @ [Booked (map (\<lambda>r. number (rooms h ! r)) best) c],
            \<lparr> rooms = mark_booked (rooms h) best,
              last_booked_ids = map (\<lambda>r. number (rooms h ! r)) best \<rparr>)"
    using assms ne by (simp add: book_rooms_def Let_def commit_mark_booked)
  with w x show ?thesis by blast
qed

section \<open>Validation and failure\<close>

lemma available_after_commit:
  assumes "distinct best" and "set best \<subseteq> set (available_rooms rs)"
  shows "length (available_rooms (mark_booked rs best)) + length best = length (available_rooms rs)"
proof -
  have len: "length (mark_booked rs best) = length rs" by (simp add: mark_booked_def)
  have "available_rooms (mark_booked rs best) =
        filter (\<lambda>r. \<not> is_booked (mark_booked rs best ! r)) [0 ..< length rs]"
    by (simp add: available_rooms_def len)
  also have "\<dots> = filter (\<lambda>r. r \<notin> set best \<and> \<not> is_booked (rs ! r)) [0 ..< length rs]"
    by (rule filter_cong) (auto simp: mark_booked_def)
  also have "\<dots> = filter (\<lambda>r. r \<notin> set best) (available_rooms rs)"
    by (simp add: available_rooms_def conj_commute)
  finally have eq: "available_rooms (mark_booked rs best) =
      filter (\<lambda>r. r \<notin> set best) (available_rooms rs)" .
  have "length (filter (\<lambda>r. r \<notin> set best) (available_rooms rs)) =
        card (set (available_rooms rs) - set best)"
  proof -
    have "distinct (filter (\<lambda>r. r \<notin> set best) (available_rooms rs))"
      using available_rooms_distinct by simp
    then have "length (filter (\<lambda>r. r \<notin> set best) (available_rooms rs)) =
        card (set (filter (\<lambda>r. r \<notin> set best) (available_rooms rs)))"
      by (rule distinct_card [symmetric])
    moreover have "set (filter (\<lambda>r. r \<notin> set best) (available_rooms rs)) =
        set (available_rooms rs) - set best"
      by auto
    ultimately show ?thesis by simp
  qed
  also have "\<dots> = card (set (available_rooms rs)) - card (set best)"
    using assms(2) by (simp add: card_Diff_subset)
  also have "\<dots> = length (available_rooms rs) - length best"
    using assms(1) available_rooms_distinct [of rs] by (simp add: distinct_card)
  finally have "length (available_rooms (mark_booked rs best)) =
      length (available_rooms rs) - length best"
    using eq by simp
  moreover have "length best \<le> length (available_rooms rs)"
    using assms available_rooms_distinct [of rs]
    by (metis card_mono distinct_card List.finite_set)
  ultimately show ?thesis by simp
qed

text \<open>
  C2. \<open>book_rooms h n\<close> prints the \<open>InvalidCount\<close> error exactly when \<open>n < 1\<close> or
  \<open>n > 5\<close>; for \<open>1 \<le> n \<le> 5\<close> it prints the \<open>InsufficientInventory\<close> error exactly when
  fewer than \<open>n\<close> rooms have \<open>is_booked = False\<close>; in every other case it runs the search
  stages, and what it prints is their result.
\<close>

theorem book_rooms_validation:
  "(fst (book_rooms h n) = [InvalidCount] \<longleftrightarrow> n < 1 \<or> 5 < n) \<and>
   (1 \<le> n \<and> n \<le> 5 \<longrightarrow>
      (fst (book_rooms h n) = [InsufficientInventory] \<longleftrightarrow>
         int (length (filter (\<lambda>r. \<not> is_booked r) (rooms h))) < n)) \<and>
   (1 \<le> n \<and> n \<le> 5 \<and> n \<le> int (length (filter (\<lambda>r. \<not> is_booked r) (rooms h))) \<longrightarrow>
      (\<exists>best c x.
         select_rooms (rooms h) (nat n) (available_rooms (rooms h)) = (best, c, x) \<and>
         fst (book_rooms h n) =
           (if x then [CrossFloorInfo] else []) @
           [Booked (map (\<lambda>r. number (rooms h ! r)) best) c]))"
proof -
  let ?av = "available_rooms (rooms h)"
  let ?free = "int (length (filter (\<lambda>r. \<not> is_booked r) (rooms h)))"
  have free: "int (length ?av) = ?free" by (simp add: available_rooms_length)
  have bad: "fst (book_rooms h n) = [InvalidCount]" if "n < 1 \<or> 5 < n"
    using that by (auto simp: book_rooms_def)
  have few: "fst (book_rooms h n) = [InsufficientInventory]" if "1 \<le> n" "n \<le> 5" "?free < n"
    using that free by (simp add: book_rooms_def Let_def)
  have ok: "\<exists>best c x.
         select_rooms (rooms h) (nat n) ?av = (best, c, x) \<and>
         fst (book_rooms h n) =
           (if x then [CrossFloorInfo] else []) @
           [Booked (map (\<lambda>r. number (rooms h ! r)) best) c]"
    if "1 \<le> n" "n \<le> 5" "n \<le> ?free"
  proof -
    obtain best c x where s: "select_rooms (rooms h) (nat n) ?av = (best, c, x)"
      by (cases "select_rooms (rooms h) (nat n) ?av")
    from that free have "n \<le> int (length ?av)" by simp
    from book_rooms_select [OF that(1,2) this s] s show ?thesis by auto
  qed
  have "fst (book_rooms h n) = [InvalidCount] \<longleftrightarrow> n < 1 \<or> 5 < n"
  proof
    assume a: "fst (book_rooms h n) = [InvalidCount]"
    show "n < 1 \<or> 5 < n"
    proof (rule ccontr)
      assume "\<not> (n < 1 \<or> 5 < n)"
      then have v: "1 \<le> n" "n \<le> 5" by simp_all
      show False
      proof (cases "?free < n")
        case True
        with few v a show False by simp
      next
        case False
        with ok v a show False by (auto split: if_splits)
      qed
    qed
  qed (rule bad)
  moreover have "fst (book_rooms h n) = [InsufficientInventory] \<longleftrightarrow> ?free < n"
    if v: "1 \<le> n" "n \<le> 5"
  proof
    assume a: "fst (book_rooms h n) = [InsufficientInventory]"
    show "?free < n"
    proof (rule ccontr)
      assume "\<not> ?free < n"
      with ok v a show False by (auto split: if_splits)
    qed
  qed (rule few [OF v])
  ultimately show ?thesis using ok by blast
qed

theorem book_rooms_validation_witness:
  "fst (book_rooms HotelSystem 6) = [InvalidCount] \<and>
   fst (book_rooms (occupancy [(1, 0), (1, 1)]) 3) = [InsufficientInventory] \<and>
   (\<exists>best c x.
      select_rooms init_hotel 3 (available_rooms init_hotel) = (best, c, x) \<and>
      fst (book_rooms HotelSystem 3) =
        (if x then [CrossFloorInfo] else []) @
        [Booked (map (\<lambda>r. number (init_hotel ! r)) best) c])"
proof -
  have a: "fst (book_rooms HotelSystem 6) = [InvalidCount]"
    using book_rooms_validation [of HotelSystem 6] by simp
  have "int (length (filter (\<lambda>r. \<not> is_booked r) (rooms (occupancy [(1, 0), (1, 1)])))) < 3"
    by code_simp
  then have b: "fst (book_rooms (occupancy [(1, 0), (1, 1)]) 3) = [InsufficientInventory]"
    using book_rooms_validation [of "occupancy [(1, 0), (1, 1)]" 3] by simp
  have "3 \<le> int (length (filter (\<lambda>r. \<not> is_booked r) (rooms HotelSystem)))"
    by code_simp
  then have "\<exists>best c x.
      select_rooms (rooms HotelSystem) (nat 3) (available_rooms (rooms HotelSystem)) = (best, c, x) \<and>
      fst (book_rooms HotelSystem 3) =
        (if x then [CrossFloorInfo] else []) @
        [Booked (map (\<lambda>r. number (rooms HotelSystem ! r)) best) c]"
    using book_rooms_validation [of HotelSystem 3] by simp
  then show ?thesis using a b by (simp add: HotelSystem_def)
qed

text \<open>
  C3. A call of \<open>book_rooms\<close> that prints an error (\<open>InvalidCount\<close>,
  \<open>InsufficientInventory\<close>, or the defensive \<open>NoArrangementFound\<close>) leaves the state as it
  was: the flag of every room and \<open>last_booked_ids\<close> are unchanged.
\<close>

theorem book_rooms_failure_unchanged:
  assumes "InvalidCount \<in> set (fst (book_rooms h n)) \<or>
           InsufficientInventory \<in> set (fst (book_rooms h n)) \<or>
           NoArrangementFound \<in> set (fst (book_rooms h n))"
  shows "snd (book_rooms h n) = h"
  using assms
  by (auto simp: book_rooms_def Let_def split: if_splits prod.splits)

theorem book_rooms_failure_unchanged_witness:
  "snd (book_rooms HotelSystem 0) = HotelSystem \<and>
   snd (book_rooms (occupancy [(1, 0), (1, 1)]) 3) = occupancy [(1, 0), (1, 1)]"
proof -
  have "InvalidCount \<in> set (fst (book_rooms HotelSystem 0))"
    by (simp add: book_rooms_def)
  then have a: "snd (book_rooms HotelSystem 0) = HotelSystem"
    using book_rooms_failure_unchanged [of HotelSystem 0] by blast
  have "InsufficientInventory \<in> set (fst (book_rooms (occupancy [(1, 0), (1, 1)]) 3))"
    by code_simp
  then have "snd (book_rooms (occupancy [(1, 0), (1, 1)]) 3) = occupancy [(1, 0), (1, 1)]"
    using book_rooms_failure_unchanged [of "occupancy [(1, 0), (1, 1)]" 3] by blast
  with a show ?thesis by simp
qed

section \<open>Routing between the stages and the commit\<close>

lemma score_formula: "score rs = (\<lambda>r. floor (rs ! r) * 2 + index (rs ! r))"
  by (simp add: fun_eq_iff score_def)

lemma select_rooms_cross_search:
  assumes "0 < n" and "\<not> (\<exists>f. n \<le> length (on_floor rs f av))"
  shows "select_rooms rs n av =
           (case cross_floor_search rs n av [] of (best, c) \<Rightarrow> (best, c, True))"
proof -
  have "same_floor_windows rs n av = []"
    using assms same_floor_windows_nonempty by blast
  then have "same_floor_search rs n av = ([], None, False)"
    by (simp add: same_floor_search_windows)
  then show ?thesis by (simp add: select_rooms_def)
qed

lemma select_rooms_same_search:
  assumes "0 < n" and "\<exists>f. n \<le> length (on_floor rs f av)"
  shows "select_rooms rs n av =
           (case same_floor_search rs n av of (best, c, found) \<Rightarrow> (best, c, False))"
proof -
  have ne: "same_floor_windows rs n av \<noteq> []"
    using assms same_floor_windows_nonempty by blast
  from scan_first_min [OF ne, of "same_floor_cost rs" "[]" False]
  obtain b c where "same_floor_search rs n av = (b, c, True)"
    unfolding same_floor_search_windows by blast
  then show ?thesis by (simp add: select_rooms_def)
qed

text \<open>
  C4. For \<open>1 \<le> n \<le> 5\<close> and at least \<open>n\<close> available rooms, \<open>book_rooms\<close> runs the
  cross-floor search (and prints its notice) exactly when no floor has \<open>n\<close> available
  rooms. When some floor has \<open>n\<close> available rooms, what is printed and the state after
  the call are those of the result of \<open>same_floor_search\<close>, the first cheapest window of
  the same-floor scan. When no floor has, they are those of the result of
  \<open>cross_floor_search\<close>, the first cheapest window of the list sorted by
  \<open>floor * 2 + index\<close>; this is the case when every floor of the hotel has exactly
  \<open>n - 1\<close> available rooms.
\<close>

theorem cross_floor_iff:
  assumes "1 \<le> n" and "n \<le> 5" and "n \<le> int (length (available_rooms (rooms h)))"
  shows "(CrossFloorInfo \<in> set (fst (book_rooms h n)) \<longleftrightarrow>
            (\<forall>f. int (available_on (rooms h) f) < n)) \<and>
         ((\<exists>f. n \<le> int (available_on (rooms h) f)) \<longrightarrow>
            (\<exists>i. first_min_at (same_floor_cost (rooms h))
                    (same_floor_windows (rooms h) (nat n) (available_rooms (rooms h))) i \<and>
                 fst (book_rooms h n) =
                   [Booked
                      (map (\<lambda>r. number (rooms h ! r))
                         (same_floor_windows (rooms h) (nat n) (available_rooms (rooms h)) ! i))
                      (Some (same_floor_cost (rooms h)
                         (same_floor_windows (rooms h) (nat n) (available_rooms (rooms h)) ! i)))]) \<and>
            book_rooms h n =
              (case same_floor_search (rooms h) (nat n) (available_rooms (rooms h)) of
                 (best, c, found) \<Rightarrow>
                   ([Booked (map (\<lambda>r. number (rooms h ! r)) best) c],
                    \<lparr> rooms = mark_booked (rooms h) best,
                      last_booked_ids = map (\<lambda>r. number (rooms h ! r)) best \<rparr>))) \<and>
         ((\<forall>f. int (available_on (rooms h) f) < n) \<longrightarrow>
            (\<exists>i. first_min_at (total_cost (rooms h))
                    (windows (nat n)
                       (sort_key (\<lambda>r. floor (rooms h ! r) * 2 + index (rooms h ! r))
                          (available_rooms (rooms h)))) i \<and>
                 fst (book_rooms h n) =
                   [CrossFloorInfo,
                    Booked
                      (map (\<lambda>r. number (rooms h ! r))
                         (windows (nat n)
                            (sort_key (\<lambda>r. floor (rooms h ! r) * 2 + index (rooms h ! r))
                               (available_rooms (rooms h))) ! i))
                      (Some (total_cost (rooms h)
                         (windows (nat n)
                            (sort_key (\<lambda>r. floor (rooms h ! r) * 2 + index (rooms h ! r))
                               (available_rooms (rooms h))) ! i)))]) \<and>
            book_rooms h n =
              (case cross_floor_search (rooms h) (nat n) (available_rooms (rooms h)) [] of
                 (best, c) \<Rightarrow>
                   ([CrossFloorInfo, Booked (map (\<lambda>r. number (rooms h ! r)) best) c],
                    \<lparr> rooms = mark_booked (rooms h) best,
                      last_booked_ids = map (\<lambda>r. number (rooms h ! r)) best \<rparr>))) \<and>
         ((\<forall>r \<in> set (rooms h). int (available_on (rooms h) (floor r)) = n - 1) \<longrightarrow>
            CrossFloorInfo \<in> set (fst (book_rooms h n)) \<and>
            book_rooms h n =
              (case cross_floor_search (rooms h) (nat n) (available_rooms (rooms h)) [] of
                 (best, c) \<Rightarrow>
                   ([CrossFloorInfo, Booked (map (\<lambda>r. number (rooms h ! r)) best) c],
                    \<lparr> rooms = mark_booked (rooms h) best,
                      last_booked_ids = map (\<lambda>r. number (rooms h ! r)) best \<rparr>)))"
proof -
  let ?rs = "rooms h"
  let ?av = "available_rooms ?rs"
  let ?key = "\<lambda>r. floor (?rs ! r) * 2 + index (?rs ! r)"
  let ?cw = "windows (nat n) (sort_key ?key ?av)"
  have n0: "0 < nat n" using assms(1) by simp
  have nl: "nat n \<le> length ?av" using assms(3) by simp
  obtain best c x where s: "select_rooms ?rs (nat n) ?av = (best, c, x)"
    by (cases "select_rooms ?rs (nat n) ?av")
  note b = book_rooms_select [OF assms s]
  from b have x: "x \<longleftrightarrow> (\<forall>f. int (available_on ?rs f) < n)" by blast
  from b have full: "book_rooms h n =
      ((if x then [CrossFloorInfo] else []) @ [Booked (map (\<lambda>r. number (?rs ! r)) best) c],
       \<lparr> rooms = mark_booked ?rs best, last_booked_ids = map (\<lambda>r. number (?rs ! r)) best \<rparr>)"
    by blast
  then have out: "fst (book_rooms h n) =
      (if x then [CrossFloorInfo] else []) @ [Booked (map (\<lambda>r. number (?rs ! r)) best) c]"
    by simp
  have floors: "(\<exists>f. nat n \<le> length (on_floor ?rs f ?av)) \<longleftrightarrow> (\<exists>f. n \<le> int (available_on ?rs f))"
    using assms(1) by (simp add: on_floor_available nat_le_iff)
  have iff: "CrossFloorInfo \<in> set (fst (book_rooms h n)) \<longleftrightarrow> (\<forall>f. int (available_on ?rs f) < n)"
    using x out by auto
  have same: "(\<exists>i. first_min_at (same_floor_cost ?rs) (same_floor_windows ?rs (nat n) ?av) i \<and>
                 fst (book_rooms h n) =
                   [Booked (map (\<lambda>r. number (?rs ! r)) (same_floor_windows ?rs (nat n) ?av ! i))
                      (Some (same_floor_cost ?rs (same_floor_windows ?rs (nat n) ?av ! i)))]) \<and>
            book_rooms h n =
              (case same_floor_search ?rs (nat n) ?av of
                 (best, c, found) \<Rightarrow>
                   ([Booked (map (\<lambda>r. number (?rs ! r)) best) c],
                    \<lparr> rooms = mark_booked ?rs best,
                      last_booked_ids = map (\<lambda>r. number (?rs ! r)) best \<rparr>))"
    if "\<exists>f. n \<le> int (available_on ?rs f)"
  proof -
    from that floors have ex: "\<exists>f. nat n \<le> length (on_floor ?rs f ?av)" by simp
    from select_rooms_same_floor [OF n0 ex] s
    obtain i where i: "first_min_at (same_floor_cost ?rs) (same_floor_windows ?rs (nat n) ?av) i"
      and r: "best = same_floor_windows ?rs (nat n) ?av ! i"
         "c = Some (same_floor_cost ?rs (same_floor_windows ?rs (nat n) ?av ! i))" "\<not> x"
      by auto
    from out r have "fst (book_rooms h n) =
          [Booked (map (\<lambda>r. number (?rs ! r)) (same_floor_windows ?rs (nat n) ?av ! i))
             (Some (same_floor_cost ?rs (same_floor_windows ?rs (nat n) ?av ! i)))]"
      by simp
    with i have first: "\<exists>i. first_min_at (same_floor_cost ?rs) (same_floor_windows ?rs (nat n) ?av) i \<and>
                 fst (book_rooms h n) =
                   [Booked (map (\<lambda>r. number (?rs ! r)) (same_floor_windows ?rs (nat n) ?av ! i))
                      (Some (same_floor_cost ?rs (same_floor_windows ?rs (nat n) ?av ! i)))]"
      by blast
    obtain b' c' fd where sf: "same_floor_search ?rs (nat n) ?av = (b', c', fd)"
      by (cases "same_floor_search ?rs (nat n) ?av")
    from select_rooms_same_search [OF n0 ex] s sf
    have "best = b'" "c = c'" by simp_all
    with full r(3) sf have "book_rooms h n =
              (case same_floor_search ?rs (nat n) ?av of
                 (best, c, found) \<Rightarrow>
                   ([Booked (map (\<lambda>r. number (?rs ! r)) best) c],
                    \<lparr> rooms = mark_booked ?rs best,
                      last_booked_ids = map (\<lambda>r. number (?rs ! r)) best \<rparr>))"
      by simp
    with first show ?thesis by blast
  qed
  have cross: "(\<exists>i. first_min_at (total_cost ?rs) ?cw i \<and>
                 fst (book_rooms h n) =
                   [CrossFloorInfo,
                    Booked (map (\<lambda>r. number (?rs ! r)) (?cw ! i))
                      (Some (total_cost ?rs (?cw ! i)))]) \<and>
            book_rooms h n =
              (case cross_floor_search ?rs (nat n) ?av [] of
                 (best, c) \<Rightarrow>
                   ([CrossFloorInfo, Booked (map (\<lambda>r. number (?rs ! r)) best) c],
                    \<lparr> rooms = mark_booked ?rs best,
                      last_booked_ids = map (\<lambda>r. number (?rs ! r)) best \<rparr>))"
    if "\<forall>f. int (available_on ?rs f) < n"
  proof -
    from that floors have nex: "\<not> (\<exists>f. nat n \<le> length (on_floor ?rs f ?av))"
      by (simp add: not_le) 
    from that x have xt: "x" by simp
    from select_rooms_cross_floor [OF n0 nl nex] s
    obtain i where i: "first_min_at (total_cost ?rs) (windows (nat n) (sort_key (score ?rs) ?av)) i"
      and r: "best = windows (nat n) (sort_key (score ?rs) ?av) ! i"
         "c = Some (total_cost ?rs (windows (nat n) (sort_key (score ?rs) ?av) ! i))"
      by auto
    have sc: "score ?rs = ?key" by (rule score_formula)
    from i have i': "first_min_at (total_cost ?rs) ?cw i" unfolding sc .
    from out r xt have "fst (book_rooms h n) =
          [CrossFloorInfo,
           Booked (map (\<lambda>r. number (?rs ! r)) (?cw ! i)) (Some (total_cost ?rs (?cw ! i)))]"
      unfolding sc by simp
    with i' have first: "\<exists>i. first_min_at (total_cost ?rs) ?cw i \<and>
                 fst (book_rooms h n) =
                   [CrossFloorInfo,
                    Booked (map (\<lambda>r. number (?rs ! r)) (?cw ! i))
                      (Some (total_cost ?rs (?cw ! i)))]"
      by blast
    obtain b' c' where cf: "cross_floor_search ?rs (nat n) ?av [] = (b', c')"
      by (cases "cross_floor_search ?rs (nat n) ?av []")
    from select_rooms_cross_search [OF n0 nex] s cf
    have "best = b'" "c = c'" by simp_all
    with full xt cf have "book_rooms h n =
              (case cross_floor_search ?rs (nat n) ?av [] of
                 (best, c) \<Rightarrow>
                   ([CrossFloorInfo, Booked (map (\<lambda>r. number (?rs ! r)) best) c],
                    \<lparr> rooms = mark_booked ?rs best,
                      last_booked_ids = map (\<lambda>r. number (?rs ! r)) best \<rparr>))"
      by simp
    with first show ?thesis by blast
  qed
  have scen: "CrossFloorInfo \<in> set (fst (book_rooms h n)) \<and>
            book_rooms h n =
              (case cross_floor_search ?rs (nat n) ?av [] of
                 (best, c) \<Rightarrow>
                   ([CrossFloorInfo, Booked (map (\<lambda>r. number (?rs ! r)) best) c],
                    \<lparr> rooms = mark_booked ?rs best,
                      last_booked_ids = map (\<lambda>r. number (?rs ! r)) best \<rparr>))"
    if all: "\<forall>r \<in> set ?rs. int (available_on ?rs (floor r)) = n - 1"
  proof -
    have "int (available_on ?rs f) < n" for f
    proof (cases "f \<in> floor ` set ?rs")
      case True
      then show ?thesis using all by auto
    next
      case False
      then have "filter (\<lambda>r. floor r = f \<and> \<not> is_booked r) ?rs = []"
        by (auto simp: filter_empty_conv)
      then show ?thesis using assms(1) by (simp add: available_on_def)
    qed
    then have a: "\<forall>f. int (available_on ?rs f) < n" by blast
    with iff cross [OF a] show ?thesis by blast
  qed
  from iff same cross scen show ?thesis by blast
qed

theorem cross_floor_iff_witness:
  "(3::int) \<le> int (length (available_rooms (rooms two_free_per_floor))) \<and>
   list_all (\<lambda>r. int (available_on (rooms two_free_per_floor) (floor r)) = 3 - 1)
     (rooms two_free_per_floor) \<and>
   CrossFloorInfo \<in> set (fst (book_rooms two_free_per_floor 3)) \<and>
   (\<forall>f. int (available_on (rooms two_free_per_floor) f) < 3) \<and>
   cross_floor_search (rooms two_free_per_floor) 3 (available_rooms (rooms two_free_per_floor)) [] =
     ([0, 1, 10], Some 3) \<and>
   book_rooms two_free_per_floor 3 =
     ([CrossFloorInfo, Booked [101, 102, 201] (Some 3)],
      \<lparr> rooms = mark_booked (rooms two_free_per_floor) [0, 1, 10],
        last_booked_ids = [101, 102, 201] \<rparr>)"
proof -
  let ?rs = "rooms two_free_per_floor"
  have a: "(3::int) \<le> int (length (available_rooms ?rs))"
    by code_simp
  have b: "\<forall>r \<in> set ?rs. int (available_on ?rs (floor r)) = 3 - 1"
    by code_simp
  have lo: "(1::int) \<le> 3" and hi: "(3::int) \<le> 5" by simp_all
  note t = cross_floor_iff [OF lo hi a]
  from t b have c: "CrossFloorInfo \<in> set (fst (book_rooms two_free_per_floor 3))"
    by blast
  from t c have f: "\<forall>f. int (available_on ?rs f) < 3"
    by blast
  have cf: "cross_floor_search ?rs 3 (available_rooms ?rs) [] = ([0, 1, 10], Some 3)"
    by code_simp
  have nums: "map (\<lambda>r. number (?rs ! r)) [0, 1, 10] = [101, 102, 201]"
    by code_simp
  from t b have "book_rooms two_free_per_floor 3 =
      (case cross_floor_search ?rs (nat 3) (available_rooms ?rs) [] of
         (best, c) \<Rightarrow>
           ([CrossFloorInfo, Booked (map (\<lambda>r. number (?rs ! r)) best) c],
            \<lparr> rooms = mark_booked ?rs best,
              last_booked_ids = map (\<lambda>r. number (?rs ! r)) best \<rparr>))"
    by blast
  then have out: "book_rooms two_free_per_floor 3 =
     ([CrossFloorInfo, Booked [101, 102, 201] (Some 3)],
      \<lparr> rooms = mark_booked ?rs [0, 1, 10], last_booked_ids = [101, 102, 201] \<rparr>)"
    using cf nums by simp
  from b
  have "list_all (\<lambda>r. int (available_on ?rs (floor r)) = 3 - 1) ?rs"
    unfolding list_all_iff .
  with a c f cf out show ?thesis by blast
qed

text \<open>
  C6. For \<open>1 \<le> n \<le> 5\<close> and at least \<open>n\<close> available rooms, \<open>book_rooms\<close> prints a
  booking of exactly \<open>n\<close> rooms with a finite cost, never \<open>NoArrangementFound\<close>, and exactly
  \<open>n\<close> rooms stop being available.
\<close>

theorem book_rooms_books_n:
  assumes "1 \<le> n" and "n \<le> 5" and "n \<le> int (length (available_rooms (rooms h)))"
  shows "\<exists>ids c.
           (fst (book_rooms h n) = [Booked ids (Some c)] \<or>
            fst (book_rooms h n) = [CrossFloorInfo, Booked ids (Some c)]) \<and>
           int (length ids) = n \<and>
           NoArrangementFound \<notin> set (fst (book_rooms h n)) \<and>
           int (length (available_rooms (rooms (snd (book_rooms h n))))) =
             int (length (available_rooms (rooms h))) - n"
proof -
  let ?rs = "rooms h"
  let ?av = "available_rooms ?rs"
  obtain best c x where s: "select_rooms ?rs (nat n) ?av = (best, c, x)"
    by (cases "select_rooms ?rs (nat n) ?av")
  note b = book_rooms_select [OF assms s]
  from b obtain c' where c: "c = Some c'" by auto
  from b have l: "length best = nat n" and d: "distinct best" and sub: "set best \<subseteq> set ?av"
    by blast+
  from b have out: "book_rooms h n =
      ((if x then [CrossFloorInfo] else []) @ [Booked (map (\<lambda>r. number (?rs ! r)) best) c],
       \<lparr> rooms = mark_booked ?rs best, last_booked_ids = map (\<lambda>r. number (?rs ! r)) best \<rparr>)"
    by blast
  let ?ids = "map (\<lambda>r. number (?rs ! r)) best"
  have "fst (book_rooms h n) = [Booked ?ids (Some c')] \<or>
        fst (book_rooms h n) = [CrossFloorInfo, Booked ?ids (Some c')]"
    using out c by simp
  moreover have "int (length ?ids) = n" using l assms(1) by simp
  moreover have "NoArrangementFound \<notin> set (fst (book_rooms h n))"
    using out by simp
  moreover have "int (length (available_rooms (rooms (snd (book_rooms h n))))) =
             int (length ?av) - n"
    using available_after_commit [OF d sub] l assms(1) by (simp add: out)
  ultimately show ?thesis by blast
qed

theorem book_rooms_books_n_witness:
  "(3::int) \<le> int (length (available_rooms (rooms two_free_per_floor))) \<and>
   (\<exists>ids c.
     (fst (book_rooms two_free_per_floor 3) = [Booked ids (Some c)] \<or>
      fst (book_rooms two_free_per_floor 3) = [CrossFloorInfo, Booked ids (Some c)]) \<and>
     int (length ids) = 3 \<and>
     NoArrangementFound \<notin> set (fst (book_rooms two_free_per_floor 3)) \<and>
     int (length (available_rooms (rooms (snd (book_rooms two_free_per_floor 3))))) =
       int (length (available_rooms (rooms two_free_per_floor))) - 3)"
proof -
  have a: "(3::int) \<le> int (length (available_rooms (rooms two_free_per_floor)))"
    by code_simp
  have lo: "(1::int) \<le> 3" and hi: "(3::int) \<le> 5" by simp_all
  from book_rooms_books_n [OF lo hi a] a show ?thesis by (rule conjI [rotated])
qed

text \<open>
  C7. When \<open>book_rooms h n\<close> prints a booking, there are \<open>n\<close> distinct rooms, all
  available before the call, such that afterwards exactly these rooms have been set to
  booked, every other room is as it was, and \<open>last_booked_ids\<close> is the list of their numbers
  (the numbers printed).
\<close>

theorem book_rooms_commit:
  assumes "Booked ids c \<in> set (fst (book_rooms h n))"
  shows "\<exists>best.
           int (length best) = n \<and> distinct best \<and>
           (\<forall>r \<in> set best. r < length (rooms h) \<and> \<not> is_booked (rooms h ! r)) \<and>
           ids = map (\<lambda>r. number (rooms h ! r)) best \<and>
           length (rooms (snd (book_rooms h n))) = length (rooms h) \<and>
           (\<forall>i < length (rooms h).
              rooms (snd (book_rooms h n)) ! i =
                (if i \<in> set best then (rooms h ! i)\<lparr>is_booked := True\<rparr> else rooms h ! i)) \<and>
           last_booked_ids (snd (book_rooms h n)) = ids"
proof -
  let ?rs = "rooms h"
  let ?av = "available_rooms ?rs"
  have v: "1 \<le> n" "n \<le> 5"
    using assms by (auto simp: book_rooms_def split: if_splits)
  have e: "n \<le> int (length ?av)"
    using assms v by (auto simp: book_rooms_def Let_def split: if_splits)
  obtain best c' x where s: "select_rooms ?rs (nat n) ?av = (best, c', x)"
    by (cases "select_rooms ?rs (nat n) ?av")
  note b = book_rooms_select [OF v e s]
  from b have l: "length best = nat n" and d: "distinct best" and sub: "set best \<subseteq> set ?av"
    by blast+
  from b have out: "book_rooms h n =
      ((if x then [CrossFloorInfo] else []) @ [Booked (map (\<lambda>r. number (?rs ! r)) best) c'],
       \<lparr> rooms = mark_booked ?rs best, last_booked_ids = map (\<lambda>r. number (?rs ! r)) best \<rparr>)"
    by blast
  have ids: "ids = map (\<lambda>r. number (?rs ! r)) best"
    using assms by (auto simp: out split: if_splits)
  have "int (length best) = n" using l v(1) by simp
  moreover have "\<forall>r \<in> set best. r < length ?rs \<and> \<not> is_booked (?rs ! r)"
    using sub by (auto simp: available_rooms_set)
  moreover have "length (rooms (snd (book_rooms h n))) = length ?rs"
    by (simp add: out mark_booked_def)
  moreover have "\<forall>i < length ?rs.
      rooms (snd (book_rooms h n)) ! i =
        (if i \<in> set best then (?rs ! i)\<lparr>is_booked := True\<rparr> else ?rs ! i)"
    by (simp add: out mark_booked_def)
  moreover have "last_booked_ids (snd (book_rooms h n)) = ids"
    by (simp add: out ids)
  ultimately show ?thesis using d ids by blast
qed

theorem book_rooms_commit_witness:
  "Booked [101, 102, 103] (Some 2) \<in> set (fst (book_rooms HotelSystem 3)) \<and>
   (\<exists>best.
     int (length best) = 3 \<and> distinct best \<and>
     (\<forall>r \<in> set best. r < length (rooms HotelSystem) \<and> \<not> is_booked (rooms HotelSystem ! r)) \<and>
     [101, 102, 103] = map (\<lambda>r. number (rooms HotelSystem ! r)) best \<and>
     length (rooms (snd (book_rooms HotelSystem 3))) = length (rooms HotelSystem) \<and>
     (\<forall>i < length (rooms HotelSystem).
        rooms (snd (book_rooms HotelSystem 3)) ! i =
          (if i \<in> set best then (rooms HotelSystem ! i)\<lparr>is_booked := True\<rparr>
           else rooms HotelSystem ! i)) \<and>
     last_booked_ids (snd (book_rooms HotelSystem 3)) = [101, 102, 103])"
proof -
  have "fst (book_rooms HotelSystem 3) = [Booked [101, 102, 103] (Some 2)]"
    by code_simp
  then have b: "Booked [101, 102, 103] (Some 2) \<in> set (fst (book_rooms HotelSystem 3))"
    by simp
  from book_rooms_commit [OF b] b show ?thesis by (rule conjI [rotated])
qed

section \<open>The cross-floor search\<close>

lemma max_list_Max: "xs \<noteq> [] \<Longrightarrow> max_list xs = Max (set xs)"
proof (cases xs)
  case (Cons x ys)
  show ?thesis unfolding Cons by (simp only: max_list.simps Max.set_eq_fold)
qed simp

lemma min_list_Min: "xs \<noteq> [] \<Longrightarrow> min_list xs = Min (set xs)"
proof (cases xs)
  case (Cons x ys)
  show ?thesis unfolding Cons by (simp only: min_list.simps Min.set_eq_fold)
qed simp

lemma total_cost_bounding_box:
  assumes "w \<noteq> []"
  shows "total_cost rs w =
           2 * (Max ((\<lambda>r. floor (rs ! r)) ` set w) - Min ((\<lambda>r. floor (rs ! r)) ` set w)) +
           1 * (Max ((\<lambda>r. index (rs ! r)) ` set w) - Min ((\<lambda>r. index (rs ! r)) ` set w))"
  using assms by (simp add: total_cost_def Let_def max_list_Max min_list_Min)

text \<open>
  C5. The cross-floor search sorts the available rooms ascending by the score
  \<open>floor * 2 + index\<close> (a permutation of them, rooms of equal score in their former
  order), looks at every window of \<open>n\<close> consecutive rooms of the sorted list, gives each
  window the cost \<open>2 * (max floor - min floor) + 1 * (max index - min index)\<close>, and returns
  the first window that attains the minimum cost, with that cost.
\<close>

theorem cross_floor_search_first_min_window:
  assumes "0 < n" and "n \<le> length available"
  shows "let key = (\<lambda>r. floor (rs ! r) * 2 + index (rs ! r));
             s = sort_key key available;
             ws = windows n s in
           score rs = key \<and>
           sorted (map key s) \<and> mset s = mset available \<and>
           (\<forall>k. filter (\<lambda>r. key r = k) s = filter (\<lambda>r. key r = k) available) \<and>
           length ws = length available - n + 1 \<and>
           (\<forall>i < length ws.
              ws ! i = take n (drop i s) \<and>
              total_cost rs (ws ! i) =
                2 * (Max ((\<lambda>r. floor (rs ! r)) ` set (ws ! i)) -
                     Min ((\<lambda>r. floor (rs ! r)) ` set (ws ! i))) +
                1 * (Max ((\<lambda>r. index (rs ! r)) ` set (ws ! i)) -
                     Min ((\<lambda>r. index (rs ! r)) ` set (ws ! i)))) \<and>
           (\<exists>i. first_min_at (total_cost rs) ws i \<and>
                cross_floor_search rs n available best_set =
                  (ws ! i, Some (total_cost rs (ws ! i))))"
proof -
  let ?key = "\<lambda>r. floor (rs ! r) * 2 + index (rs ! r)"
  let ?s = "sort_key ?key available"
  let ?ws = "windows n ?s"
  have sc: "score rs = ?key" by (rule score_formula)
  have len: "length ?ws = length available - n + 1"
    using assms(2) by (simp add: windows_length_list)
  have each: "\<forall>i < length ?ws. ?ws ! i = take n (drop i ?s) \<and>
      total_cost rs (?ws ! i) =
        2 * (Max ((\<lambda>r. floor (rs ! r)) ` set (?ws ! i)) -
             Min ((\<lambda>r. floor (rs ! r)) ` set (?ws ! i))) +
        1 * (Max ((\<lambda>r. index (rs ! r)) ` set (?ws ! i)) -
             Min ((\<lambda>r. index (rs ! r)) ` set (?ws ! i)))"
  proof (intro allI impI)
    fix i assume that: "i < length ?ws"
    then have "?ws ! i \<in> set ?ws" by simp
    then have "length (?ws ! i) = n" by (rule windows_length)
    with assms(1) have "?ws ! i \<noteq> []" by auto
    then have "total_cost rs (?ws ! i) =
        2 * (Max ((\<lambda>r. floor (rs ! r)) ` set (?ws ! i)) -
             Min ((\<lambda>r. floor (rs ! r)) ` set (?ws ! i))) +
        1 * (Max ((\<lambda>r. index (rs ! r)) ` set (?ws ! i)) -
             Min ((\<lambda>r. index (rs ! r)) ` set (?ws ! i)))"
      by (rule total_cost_bounding_box)
    moreover have "?ws ! i = take n (drop i ?s)"
      using that by (simp add: windows_nth windows_length_list)
    ultimately show "?ws ! i = take n (drop i ?s) \<and>
      total_cost rs (?ws ! i) =
        2 * (Max ((\<lambda>r. floor (rs ! r)) ` set (?ws ! i)) -
             Min ((\<lambda>r. floor (rs ! r)) ` set (?ws ! i))) +
        1 * (Max ((\<lambda>r. index (rs ! r)) ` set (?ws ! i)) -
             Min ((\<lambda>r. index (rs ! r)) ` set (?ws ! i)))"
      by (rule conjI [rotated])
  qed
  have srt: "sorted (map ?key ?s)" by (rule sorted_sort_key)
  have perm: "mset ?s = mset available" by simp
  have stable: "\<forall>k. filter (\<lambda>r. ?key r = k) ?s = filter (\<lambda>r. ?key r = k) available"
    by (simp add: sort_key_stable)
  have res: "\<exists>i. first_min_at (total_cost rs) ?ws i \<and>
       cross_floor_search rs n available best_set = (?ws ! i, Some (total_cost rs (?ws ! i)))"
    using cross_floor_search_first_min [OF assms(2), of rs best_set] unfolding sc .
  from sc srt perm stable len each res show ?thesis
    unfolding Let_def by (intro conjI)
qed

theorem cross_floor_search_first_min_window_witness:
  "(0::nat) < 2 \<and> 2 \<le> length (available_rooms (rooms fragmented)) \<and>
   (let key = (\<lambda>r. floor (rooms fragmented ! r) * 2 + index (rooms fragmented ! r));
        s = sort_key key (available_rooms (rooms fragmented));
        ws = windows 2 s in
      score (rooms fragmented) = key \<and>
      sorted (map key s) \<and> mset s = mset (available_rooms (rooms fragmented)) \<and>
      (\<forall>k. filter (\<lambda>r. key r = k) s = filter (\<lambda>r. key r = k) (available_rooms (rooms fragmented))) \<and>
      length ws = length (available_rooms (rooms fragmented)) - 2 + 1 \<and>
      (\<forall>i < length ws.
         ws ! i = take 2 (drop i s) \<and>
         total_cost (rooms fragmented) (ws ! i) =
           2 * (Max ((\<lambda>r. floor (rooms fragmented ! r)) ` set (ws ! i)) -
                Min ((\<lambda>r. floor (rooms fragmented ! r)) ` set (ws ! i))) +
           1 * (Max ((\<lambda>r. index (rooms fragmented ! r)) ` set (ws ! i)) -
                Min ((\<lambda>r. index (rooms fragmented ! r)) ` set (ws ! i)))) \<and>
      (\<exists>i. first_min_at (total_cost (rooms fragmented)) ws i \<and>
           cross_floor_search (rooms fragmented) 2 (available_rooms (rooms fragmented)) [] =
             (ws ! i, Some (total_cost (rooms fragmented) (ws ! i))))) \<and>
   available_rooms (rooms fragmented) = [4, 14, 20] \<and>
   sort_key (\<lambda>r. floor (rooms fragmented ! r) * 2 + index (rooms fragmented ! r))
     (available_rooms (rooms fragmented)) = [4, 20, 14] \<and>
   cross_floor_search (rooms fragmented) 2 (available_rooms (rooms fragmented)) [] =
     ([20, 14], Some 6)"
proof -
  have a: "(0::nat) < 2" by simp
  have b: "2 \<le> length (available_rooms (rooms fragmented))" by code_simp
  have c: "available_rooms (rooms fragmented) = [4, 14, 20]" by code_simp
  have d: "sort_key (\<lambda>r. floor (rooms fragmented ! r) * 2 + index (rooms fragmented ! r))
     (available_rooms (rooms fragmented)) = [4, 20, 14]"
    by code_simp
  have e: "cross_floor_search (rooms fragmented) 2 (available_rooms (rooms fragmented)) [] =
     ([20, 14], Some 6)"
    by code_simp
  from cross_floor_search_first_min_window [OF a b] a b c d e show ?thesis by blast
qed

text \<open>
  C9. There is an occupancy and a count \<open>n\<close> in \<open>[1, 5]\<close>, with \<open>n\<close> rooms available and no
  floor holding \<open>n\<close> of them, for which the cross-floor search books a set whose
  bounding-box cost is strictly greater than that of another set of \<open>n\<close> available rooms:
  the search is not optimal.
\<close>

theorem cross_floor_not_optimal:
  "\<exists>h n best c alt.
     1 \<le> n \<and> n \<le> 5 \<and> n \<le> int (length (available_rooms (rooms h))) \<and>
     (\<forall>f. int (available_on (rooms h) f) < n) \<and>
     select_rooms (rooms h) (nat n) (available_rooms (rooms h)) = (best, Some c, True) \<and>
     fst (book_rooms h n) =
       [CrossFloorInfo, Booked (map (\<lambda>r. number (rooms h ! r)) best) (Some c)] \<and>
     c = total_cost (rooms h) best \<and>
     distinct alt \<and> int (length alt) = n \<and> set alt \<subseteq> set (available_rooms (rooms h)) \<and>
     total_cost (rooms h) alt < c"
proof -
  let ?rs = "rooms fragmented"
  have lo: "(1::int) \<le> 2" and hi: "(2::int) \<le> 5" by simp_all
  have a: "2 \<le> int (length (available_rooms ?rs))" by code_simp
  have s: "select_rooms ?rs (nat 2) (available_rooms ?rs) = ([20, 14], Some 6, True)"
    by code_simp
  note b = book_rooms_select [OF lo hi a s]
  from b have f: "\<forall>f. int (available_on ?rs f) < 2" by blast
  from b have out: "fst (book_rooms fragmented 2) =
      [CrossFloorInfo, Booked (map (\<lambda>r. number (?rs ! r)) [20, 14]) (Some 6)]"
    by simp
  have c: "6 = total_cost ?rs [20, 14]" by code_simp
  have alt: "distinct [4, 14 :: nat]" "int (length [4, 14 :: nat]) = 2"
    by simp_all
  have sub: "set [4, 14] \<subseteq> set (available_rooms ?rs)" by code_simp
  have less: "total_cost ?rs [4, 14] < 6" by code_simp
  from lo hi a f s out c alt sub less show ?thesis by blast
qed

section \<open>Contiguous runs on one floor\<close>

lemma strict_sorted_gap:
  fixes ys :: "int list"
  assumes "sorted_wrt (<) ys" and "j < length ys"
  shows "i \<le> j \<Longrightarrow> int (j - i) \<le> ys ! j - ys ! i"
proof (induction "j - i" arbitrary: i)
  case 0
  then show ?case by simp
next
  case (Suc d)
  then have i: "Suc i \<le> j" and d: "d = j - Suc i" by simp_all
  from Suc.hyps(1) [OF d i] have "int (j - Suc i) \<le> ys ! j - ys ! Suc i" .
  moreover have "ys ! i < ys ! Suc i"
    using assms i by (simp add: sorted_wrt_nth_less)
  ultimately show ?case using i by simp
qed

lemma strict_sorted_run:
  fixes ys :: "int list"
  assumes s: "sorted_wrt (<) ys" and p: "p < length ys" and a: "ys ! p = a"
    and run: "\<forall>k < n. a + int k \<in> set ys"
  shows "k < n \<Longrightarrow> p + k < length ys \<and> ys ! (p + k) = a + int k"
proof (induction k)
  case 0
  then show ?case using p a by simp
next
  case (Suc k)
  then have IH: "p + k < length ys" "ys ! (p + k) = a + int k" by simp_all
  from run Suc.prems obtain q where q: "q < length ys" "ys ! q = a + int (Suc k)"
    by (auto simp: in_set_conv_nth)
  have pq: "p + k < q"
  proof (rule ccontr)
    assume "\<not> p + k < q"
    then have "q \<le> p + k" by simp
    then have "ys ! q \<le> ys ! (p + k)"
      using s IH(1) by (simp add: sorted_wrt_iff_nth_less le_eq_less_or_eq)
          (metis less_imp_le order_refl le_neq_implies_less)
    with q IH show False by simp
  qed
  then have l: "p + Suc k < length ys" using q by simp
  have "ys ! (p + k) < ys ! (p + Suc k)"
    using s l by (simp add: sorted_wrt_nth_less)
  then have lo: "a + int (Suc k) \<le> ys ! (p + Suc k)" using IH by simp
  have "ys ! (p + Suc k) \<le> ys ! q"
  proof (cases "p + Suc k = q")
    case True
    then show ?thesis by simp
  next
    case False
    with pq have "p + Suc k < q" by simp
    from sorted_wrt_nth_less [OF s this q(1)] show ?thesis by simp
  qed
  with lo q l show ?case by simp
qed

lemma window_hd_last:
  assumes "0 < n" and "i + n \<le> length s"
  shows "hd (take n (drop i s)) = s ! i \<and> last (take n (drop i s)) = s ! (i + n - 1)"
proof -
  have ne: "take n (drop i s) \<noteq> []" using assms by auto
  have len: "length (take n (drop i s)) = n" using assms by simp
  have "hd (take n (drop i s)) = take n (drop i s) ! 0"
    using ne by (simp add: hd_conv_nth)
  also have "\<dots> = s ! i" using assms by simp
  finally have h: "hd (take n (drop i s)) = s ! i" .
  have "last (take n (drop i s)) = take n (drop i s) ! (n - 1)"
    using ne len by (simp add: last_conv_nth)
  also have "\<dots> = s ! (i + n - 1)" using assms by (simp add: add.commute)
  finally show ?thesis using h by simp
qed

lemma floor_indexes_strict:
  assumes d: "positions_distinct rs"
  shows "sorted_wrt (<)
           (map (\<lambda>r. index (rs ! r))
              (sort_key (\<lambda>r. index (rs ! r)) (on_floor rs f (available_rooms rs))))"
proof -
  let ?xs = "on_floor rs f (available_rooms rs)"
  let ?s = "sort_key (\<lambda>r. index (rs ! r)) ?xs"
  have dx: "distinct ?xs" by (simp add: on_floor_def available_rooms_distinct)
  have inj: "inj_on (\<lambda>r. index (rs ! r)) (set ?xs)"
  proof (rule inj_onI)
    fix x y assume x: "x \<in> set ?xs" and y: "y \<in> set ?xs"
      and e: "index (rs ! x) = index (rs ! y)"
    from x y have lx: "x < length rs" and ly: "y < length rs"
      and fx: "floor (rs ! x) = f" and fy: "floor (rs ! y) = f"
      by (auto simp: on_floor_def available_rooms_set)
    have "map (\<lambda>r. (floor r, index r)) rs ! x = map (\<lambda>r. (floor r, index r)) rs ! y"
      using lx ly fx fy e by simp
    then show "x = y"
      using d lx ly unfolding positions_distinct_def
      by (simp add: nth_eq_iff_index_eq del: nth_map)
  qed
  have "distinct (map (\<lambda>r. index (rs ! r)) ?s)"
    using dx inj by (simp add: distinct_map)
  moreover have "sorted (map (\<lambda>r. index (rs ! r)) ?s)" by (rule sorted_sort_key)
  ultimately show ?thesis by (simp add: strict_sorted_iff)
qed

lemma same_floor_cost_lower:
  assumes d: "positions_distinct rs" and n: "0 < n"
    and w: "w \<in> set (same_floor_windows rs n (available_rooms rs))"
  shows "int n - 1 \<le> same_floor_cost rs w"
proof -
  from same_floor_windows_member [OF w] obtain f where
    wf: "w \<in> set (windows n (sort_key (\<lambda>r. index (rs ! r)) (on_floor rs f (available_rooms rs))))"
    by blast
  let ?s = "sort_key (\<lambda>r. index (rs ! r)) (on_floor rs f (available_rooms rs))"
  let ?ys = "map (\<lambda>r. index (rs ! r)) ?s"
  from wf obtain i where i: "i < Suc (length ?s) - n" and wi: "w = take n (drop i ?s)"
    by (auto simp: windows_def)
  from i n have b: "i + n \<le> length ?s" by arith
  from window_hd_last [OF n b] wi
  have hl: "hd w = ?s ! i" "last w = ?s ! (i + n - 1)" by simp_all
  have j: "i + n - 1 < length ?ys" using b n by simp
  have ij: "i \<le> i + n - 1" using n by simp
  have "int (i + n - 1 - i) \<le> ?ys ! (i + n - 1) - ?ys ! i"
    by (rule strict_sorted_gap [OF floor_indexes_strict [OF d] j ij])
  moreover have "?ys ! (i + n - 1) = index (rs ! (?s ! (i + n - 1)))" "?ys ! i = index (rs ! (?s ! i))"
    using b n by (simp_all del: length_sort)
  ultimately show ?thesis
    using n by (simp add: same_floor_cost_def hl of_nat_diff)
qed

lemma same_floor_run_window:
  assumes d: "positions_distinct rs" and n: "0 < n"
    and run: "\<forall>k < n. \<exists>r \<in> set rs. floor r = f \<and> index r = a + int k \<and> \<not> is_booked r"
  shows "n \<le> length (on_floor rs f (available_rooms rs)) \<and>
         (\<exists>w \<in> set (same_floor_windows rs n (available_rooms rs)).
            same_floor_cost rs w = int n - 1)"
proof -
  let ?av = "available_rooms rs"
  let ?xs = "on_floor rs f ?av"
  let ?s = "sort_key (\<lambda>r. index (rs ! r)) ?xs"
  let ?ys = "map (\<lambda>r. index (rs ! r)) ?s"
  have strict: "sorted_wrt (<) ?ys" by (rule floor_indexes_strict [OF d])
  have ref: "\<exists>j \<in> set ?xs. index (rs ! j) = a + int k" if "k < n" for k
  proof -
    from run that obtain r where r: "r \<in> set rs" "floor r = f" "index r = a + int k" "\<not> is_booked r"
      by blast
    then obtain j where j: "j < length rs" "rs ! j = r" by (auto simp: in_set_conv_nth)
    with r have "j \<in> set ?xs" by (simp add: on_floor_def available_rooms_set)
    with j r show ?thesis by auto
  qed
  have mem: "\<forall>k < n. a + int k \<in> set ?ys"
  proof (intro allI impI)
    fix k assume "k < n"
    from ref [OF this] obtain j where "j \<in> set ?xs" "index (rs ! j) = a + int k" by blast
    then have "a + int k \<in> (\<lambda>r. index (rs ! r)) ` set ?xs" by (metis imageI)
    then show "a + int k \<in> set ?ys" by simp
  qed
  from mem n have "a \<in> set ?ys" by force
  then obtain p where p: "p < length ?ys" "?ys ! p = a"
    unfolding in_set_conv_nth by blast
  have k: "n - 1 < n" using n by simp
  from strict_sorted_run [OF strict p(1) p(2) mem k]
  have e: "p + (n - 1) < length ?ys" "?ys ! (p + (n - 1)) = a + int (n - 1)" by simp_all
  from e(1) n have b: "p + n \<le> length ?s" by simp
  then have nl: "n \<le> length ?xs" by simp
  let ?w = "take n (drop p ?s)"
  have "p < Suc (length ?s) - n" using b n by arith
  then have win: "?w \<in> set (windows n ?s)" by (auto simp: windows_def)
  from window_hd_last [OF n b] have hl: "hd ?w = ?s ! p" "last ?w = ?s ! (p + n - 1)"
    by simp_all
  have y1: "?ys ! p = index (rs ! (?s ! p))"
    using b n by (simp del: length_sort)
  have y2: "?ys ! (p + (n - 1)) = index (rs ! (?s ! (p + n - 1)))"
    using b n by (simp del: length_sort)
  have cost: "same_floor_cost rs ?w = int n - 1"
    using p(2) e(2) y1 y2 n by (simp add: same_floor_cost_def hl of_nat_diff)
  from ref [OF k] obtain j where j: "j \<in> set ?xs" by blast
  then have ja: "j \<in> set ?av" and jf: "floor (rs ! j) = f" by (auto simp: on_floor_def)
  have entry: "(f, ?xs) \<in> set (group_by_floor rs ?av)"
    using group_by_floor_has [OF ja, of rs] jf by simp
  have "?w \<in> set (floor_windows rs n (f, ?xs))"
    using win nl by (simp add: floor_windows_def)
  with entry have "?w \<in> set (same_floor_windows rs n ?av)"
    unfolding same_floor_windows_def by auto
  with cost nl show ?thesis by blast
qed

lemma same_floor_run_select:
  assumes d: "positions_distinct rs" and n: "0 < n"
    and run: "\<forall>k < n. \<exists>r \<in> set rs. floor r = f \<and> index r = a + int k \<and> \<not> is_booked r"
  shows "n \<le> length (available_rooms rs) \<and>
         (\<exists>best. select_rooms rs n (available_rooms rs) = (best, Some (int n - 1), False))"
proof -
  let ?av = "available_rooms rs"
  let ?ws = "same_floor_windows rs n ?av"
  from same_floor_run_window [OF d n run]
  obtain w where nl: "n \<le> length (on_floor rs f ?av)"
    and w: "w \<in> set ?ws" and cw: "same_floor_cost rs w = int n - 1"
    by blast
  have "length (on_floor rs f ?av) \<le> length ?av" by (simp add: on_floor_def)
  with nl have l: "n \<le> length ?av" by simp
  from nl have ex: "\<exists>f. n \<le> length (on_floor rs f ?av)" by blast
  from select_rooms_same_floor [OF n ex]
  obtain i where i: "first_min_at (same_floor_cost rs) ?ws i"
    and s: "select_rooms rs n ?av = (?ws ! i, Some (same_floor_cost rs (?ws ! i)), False)"
    by blast
  from w obtain j where j: "j < length ?ws" "?ws ! j = w" by (auto simp: in_set_conv_nth)
  with i have "same_floor_cost rs (?ws ! i) \<le> same_floor_cost rs w"
    unfolding first_min_at_def by blast
  moreover have "int n - 1 \<le> same_floor_cost rs (?ws ! i)"
    by (rule same_floor_cost_lower [OF d n first_min_at_member [OF i]])
  ultimately have "same_floor_cost rs (?ws ! i) = int n - 1" using cw by simp
  with s l show ?thesis by auto
qed

text \<open>
  C1. For \<open>1 \<le> n \<le> 5\<close>, in a hotel whose rooms have distinct positions, if
  some floor \<open>f\<close> has available rooms at the \<open>n\<close> consecutive indices \<open>a, \<dots>, a + n - 1\<close>,
  then \<open>book_rooms h n\<close> takes the same-floor path (it prints no cross-floor notice) and
  books \<open>n\<close> rooms at the reported cost \<open>n - 1\<close>, the index span of such a run. The cost
  is \<open>0\<close> only for \<open>n = 1\<close>: the counterexample below books two adjacent rooms at cost 1.
\<close>

theorem same_floor_contiguous_cost:
  assumes "1 \<le> n" and "n \<le> 5"
    and "distinct (map (\<lambda>r. (floor r, index r)) (rooms h))"
    and "\<forall>k \<in> {0 ..< n}. \<exists>r \<in> set (rooms h). floor r = f \<and> index r = a + k \<and> \<not> is_booked r"
  shows "\<exists>ids. fst (book_rooms h n) = [Booked ids (Some (n - 1))] \<and> int (length ids) = n"
proof -
  let ?rs = "rooms h"
  have d: "positions_distinct ?rs" using assms(3) by (simp add: positions_distinct_def)
  have n0: "0 < nat n" using assms(1) by simp
  have run: "\<forall>k < nat n. \<exists>r \<in> set ?rs. floor r = f \<and> index r = a + int k \<and> \<not> is_booked r"
  proof (intro allI impI)
    fix k assume "k < nat n"
    then have "int k \<in> {0 ..< n}" by auto
    with assms(4) show "\<exists>r \<in> set ?rs. floor r = f \<and> index r = a + int k \<and> \<not> is_booked r"
      by blast
  qed
  from same_floor_run_select [OF d n0 run]
  obtain best where l: "nat n \<le> length (available_rooms ?rs)"
    and s: "select_rooms ?rs (nat n) (available_rooms ?rs) = (best, Some (int (nat n) - 1), False)"
    by blast
  from l assms(1) have e: "n \<le> int (length (available_rooms ?rs))" by simp
  note b = book_rooms_select [OF assms(1,2) e s]
  from b have "length best = nat n" by blast
  moreover from b have "fst (book_rooms h n) =
      [Booked (map (\<lambda>r. number (?rs ! r)) best) (Some (int (nat n) - 1))]"
    by simp
  ultimately show ?thesis using assms(1) by auto
qed

theorem same_floor_contiguous_cost_witness:
  "distinct (map (\<lambda>r. (floor r, index r)) (rooms HotelSystem)) \<and>
   list_all (\<lambda>k. list_ex (\<lambda>r. floor r = 1 \<and> index r = 0 + k \<and> \<not> is_booked r) (rooms HotelSystem))
     [0, 1, 2] \<and>
   (\<exists>ids. fst (book_rooms HotelSystem 3) = [Booked ids (Some (3 - 1))] \<and> int (length ids) = 3)"
proof -
  have lo: "(1::int) \<le> 3" and hi: "(3::int) \<le> 5" by simp_all
  have d: "distinct (map (\<lambda>r. (floor r, index r)) (rooms HotelSystem))" by code_simp
  have r: "list_all (\<lambda>k. list_ex (\<lambda>r. floor r = 1 \<and> index r = 0 + k \<and> \<not> is_booked r) (rooms HotelSystem))
     [0, 1, 2]"
    by code_simp
  have iv: "{0 ..< 3 :: int} = set [0, 1, 2]" by auto
  have run: "\<forall>k \<in> {0 ..< 3}. \<exists>r \<in> set (rooms HotelSystem).
      floor r = 1 \<and> index r = 0 + k \<and> \<not> is_booked r"
    using r unfolding iv list_all_iff list_ex_iff .
  from same_floor_contiguous_cost [OF lo hi d run] d r show ?thesis by blast
qed

text \<open>
  With only the adjacent rooms 204 and 205 free (floor 2, indices 3 and 4), a request for
  two rooms is served on the same floor at cost 1, not 0.
\<close>

theorem same_floor_cost_zero_counterexample:
  "floor (rooms pair_free ! 13) = 2 \<and> index (rooms pair_free ! 13) = 3 \<and>
   \<not> is_booked (rooms pair_free ! 13) \<and>
   floor (rooms pair_free ! 14) = 2 \<and> index (rooms pair_free ! 14) = 4 \<and>
   \<not> is_booked (rooms pair_free ! 14) \<and>
   fst (book_rooms pair_free 2) = [Booked [204, 205] (Some 1)]"
  by code_simp

section \<open>The first floor free\<close>

lemma insort_key_cong_on:
  "f x = g x \<Longrightarrow> \<forall>y \<in> set ys. f y = g y \<Longrightarrow> insort_key f x ys = insort_key g x ys"
  by (induction ys) auto

lemma sort_key_cong_on:
  "\<forall>x \<in> set xs. f x = g x \<Longrightarrow> sort_key f xs = sort_key g xs"
proof (induction xs)
  case Nil
  show ?case by simp
next
  case (Cons x xs)
  then have "sort_key f xs = sort_key g xs" by simp
  moreover have "insort_key f x (sort_key g xs) = insort_key g x (sort_key g xs)"
    using Cons.prems by (intro insort_key_cong_on) auto
  ultimately show ?case by (simp add: sort_key_simps)
qed

lemma layout_nth:
  assumes "map (\<lambda>r. r\<lparr>is_booked := False\<rparr>) rs = init_hotel" and "r < 97"
  shows "floor (rs ! r) = floor (init_hotel ! r) \<and> index (rs ! r) = index (init_hotel ! r) \<and>
         number (rs ! r) = number (init_hotel ! r)"
proof -
  have "length rs = 97" using assms(1) init_hotel_length by (metis length_map)
  with assms have "init_hotel ! r = (rs ! r)\<lparr>is_booked := False\<rparr>"
    by (metis nth_map)
  then show ?thesis by simp
qed

lemma layout_positions_distinct:
  assumes "map (\<lambda>r. r\<lparr>is_booked := False\<rparr>) rs = init_hotel"
  shows "positions_distinct rs"
proof -
  have "map (\<lambda>r. (floor r, index r)) init_hotel =
        map (\<lambda>r. (floor r, index r)) (map (\<lambda>r. r\<lparr>is_booked := False\<rparr>) rs)"
    using assms by simp
  also have "\<dots> = map (\<lambda>r. (floor r, index r)) rs" by (simp add: comp_def)
  finally have "map (\<lambda>r. (floor r, index r)) rs = map (\<lambda>r. (floor r, index r)) init_hotel"
    by simp
  moreover have "distinct (map (\<lambda>r. (floor r, index r)) init_hotel)" by code_simp
  ultimately show ?thesis by (simp add: positions_distinct_def)
qed

lemma first_floor_refs:
  assumes L: "map (\<lambda>r. r\<lparr>is_booked := False\<rparr>) rs = init_hotel"
    and F: "\<forall>r \<in> set rs. floor r = 1 \<longrightarrow> \<not> is_booked r"
  shows "on_floor rs 1 (available_rooms rs) = [0 ..< 10]"
proof -
  have len: "length rs = 97" using L init_hotel_length by (metis length_map)
  have "on_floor rs 1 (available_rooms rs) =
        filter (\<lambda>r. \<not> is_booked (rs ! r) \<and> floor (rs ! r) = 1) [0 ..< 97]"
    by (simp add: on_floor_def available_rooms_def len)
  also have "\<dots> = filter (\<lambda>r. floor (init_hotel ! r) = 1) [0 ..< 97]"
  proof (rule filter_cong [OF refl])
    fix r assume "r \<in> set [0 ..< 97]"
    then have r: "r < 97" by simp
    then have "rs ! r \<in> set rs" using len by simp
    with F have "floor (rs ! r) = 1 \<longrightarrow> \<not> is_booked (rs ! r)" by blast
    then show "(\<not> is_booked (rs ! r) \<and> floor (rs ! r) = 1) = (floor (init_hotel ! r) = 1)"
      using layout_nth [OF L r] by auto
  qed
  also have "\<dots> = [0 ..< 10]" by code_simp
  finally show ?thesis .
qed

lemma first_floor_windows:
  assumes L: "map (\<lambda>r. r\<lparr>is_booked := False\<rparr>) rs = init_hotel"
  shows "windows 3 (sort_key (\<lambda>r. index (rs ! r)) [0 ..< 10]) =
           [[0, 1, 2], [1, 2, 3], [2, 3, 4], [3, 4, 5], [4, 5, 6], [5, 6, 7], [6, 7, 8], [7, 8, 9]]"
proof -
  have "\<forall>r \<in> set [0 ..< 10]. index (rs ! r) = index (init_hotel ! r)"
    using layout_nth [OF L] by simp
  then have "sort_key (\<lambda>r. index (rs ! r)) [0 ..< 10] =
             sort_key (\<lambda>r. index (init_hotel ! r)) [0 ..< 10]"
    by (rule sort_key_cong_on)
  moreover have "windows 3 (sort_key (\<lambda>r. index (init_hotel ! r)) [0 ..< 10]) =
           [[0, 1, 2], [1, 2, 3], [2, 3, 4], [3, 4, 5], [4, 5, 6], [5, 6, 7], [6, 7, 8], [7, 8, 9]]"
    by code_simp
  ultimately show ?thesis by simp
qed

lemma first_floor_select:
  assumes L: "map (\<lambda>r. r\<lparr>is_booked := False\<rparr>) rs = init_hotel"
    and F: "\<forall>r \<in> set rs. floor r = 1 \<longrightarrow> \<not> is_booked r"
  shows "10 \<le> length (available_rooms rs) \<and>
         select_rooms rs 3 (available_rooms rs) = ([0, 1, 2], Some 2, False)"
proof -
  let ?av = "available_rooms rs"
  let ?ws = "same_floor_windows rs 3 ?av"
  have len: "length rs = 97" using L init_hotel_length by (metis length_map)
  have xs: "on_floor rs 1 ?av = [0 ..< 10]" by (rule first_floor_refs [OF L F])
  have "length (on_floor rs 1 ?av) \<le> length ?av" by (simp add: on_floor_def)
  with xs have l: "10 \<le> length ?av" by simp
  have f0: "floor (rs ! 0) = 1" "index (rs ! 0) = 0" "index (rs ! 2) = 2"
  proof -
    have "floor (init_hotel ! 0) = 1 \<and> index (init_hotel ! 0) = 0 \<and> index (init_hotel ! 2) = 2"
      by code_simp
    then show "floor (rs ! 0) = 1" "index (rs ! 0) = 0" "index (rs ! 2) = 2"
      using layout_nth [OF L, of 0] layout_nth [OF L, of 2] by simp_all
  qed
  have "rs ! 0 \<in> set rs" using len by simp
  with F f0 have free0: "\<not> is_booked (rs ! 0)" by blast
  have "[0 ..< length rs] = 0 # [1 ..< length rs]" using len by (simp add: upt_conv_Cons)
  then obtain av' where av: "?av = 0 # av'"
    using free0 by (simp add: available_rooms_def)
  from group_by_floor_hd [of rs 0 av'] av f0
  have g: "group_by_floor rs ?av \<noteq> []" "fst (hd (group_by_floor rs ?av)) = 1"
    by simp_all
  then have "hd (group_by_floor rs ?av) \<in> set (group_by_floor rs ?av)" by simp
  from group_by_floor_entry [OF this] g(2) xs
  have "snd (hd (group_by_floor rs ?av)) = [0 ..< 10]" by simp
  with g(2) have "hd (group_by_floor rs ?av) = (1, [0 ..< 10])"
    by (simp add: prod_eq_iff)
  with g(1) obtain g' where ge: "group_by_floor rs ?av = (1, [0 ..< 10]) # g'"
    by (cases "group_by_floor rs ?av") auto
  have ws: "?ws =
      [[0, 1, 2], [1, 2, 3], [2, 3, 4], [3, 4, 5], [4, 5, 6], [5, 6, 7], [6, 7, 8], [7, 8, 9]] @
      concat (map (floor_windows rs 3) g')"
    by (simp add: same_floor_windows_def ge floor_windows_def first_floor_windows [OF L])
  then have w0: "?ws ! 0 = [0, 1, 2]" and wl: "0 < length ?ws" by simp_all
  have c0: "same_floor_cost rs (?ws ! 0) = 2"
    by (simp add: w0 same_floor_cost_def f0)
  have ex: "\<exists>f. 3 \<le> length (on_floor rs f ?av)"
    using xs by (intro exI [of _ 1]) simp
  from select_rooms_same_floor [OF _ ex]
  obtain i where i: "first_min_at (same_floor_cost rs) ?ws i"
    and s: "select_rooms rs 3 ?av = (?ws ! i, Some (same_floor_cost rs (?ws ! i)), False)"
    by auto
  have d: "positions_distinct rs" by (rule layout_positions_distinct [OF L])
  have lower: "int 3 - 1 \<le> same_floor_cost rs (?ws ! i)"
    by (rule same_floor_cost_lower [OF d _ first_min_at_member [OF i]]) simp
  have "i = 0"
  proof (rule ccontr)
    assume "i \<noteq> 0"
    then have "0 < i" by simp
    with i have "same_floor_cost rs (?ws ! i) < same_floor_cost rs (?ws ! 0)"
      unfolding first_min_at_def by blast
    with c0 lower show False by simp
  qed
  with s w0 c0 have "select_rooms rs 3 ?av = ([0, 1, 2], Some 2, False)" by simp
  with l show ?thesis by simp
qed

text \<open>
  C8. In every occupancy of the constructed hotel in which the ten rooms of
  floor 1 are available, \<open>book_rooms h 3\<close> books the rooms of floor 1 with indices 0, 1 and
  2 (numbers 101, 102, 103), the first window scanned, and reports cost 2, the index span
  of three adjacent rooms.
\<close>

theorem first_floor_free_books_first_three:
  assumes "map (\<lambda>r. r\<lparr>is_booked := False\<rparr>) (rooms h) = init_hotel"
    and "\<forall>r \<in> set (rooms h). floor r = 1 \<longrightarrow> \<not> is_booked r"
  shows "book_rooms h 3 =
           ([Booked [101, 102, 103] (Some 2)],
            \<lparr> rooms = mark_booked (rooms h) [0, 1, 2], last_booked_ids = [101, 102, 103] \<rparr>) \<and>
         map (\<lambda>r. (floor (rooms h ! r), index (rooms h ! r))) [0, 1, 2] =
           [(1, 0), (1, 1), (1, 2)]"
proof -
  let ?rs = "rooms h"
  from first_floor_select [OF assms]
  have l: "10 \<le> length (available_rooms ?rs)"
    and s: "select_rooms ?rs (nat 3) (available_rooms ?rs) = ([0, 1, 2], Some 2, False)"
    by simp_all
  have lo: "(1::int) \<le> 3" and hi: "(3::int) \<le> 5" by simp_all
  from l have e: "3 \<le> int (length (available_rooms ?rs))" by simp
  have "floor (init_hotel ! 0) = 1 \<and> index (init_hotel ! 0) = 0 \<and> number (init_hotel ! 0) = 101 \<and>
        floor (init_hotel ! 1) = 1 \<and> index (init_hotel ! 1) = 1 \<and> number (init_hotel ! 1) = 102 \<and>
        floor (init_hotel ! 2) = 1 \<and> index (init_hotel ! 2) = 2 \<and> number (init_hotel ! 2) = 103"
    by code_simp
  then have nums: "map (\<lambda>r. number (?rs ! r)) [0, 1, 2] = [101, 102, 103]"
    and pos: "map (\<lambda>r. (floor (?rs ! r), index (?rs ! r))) [0, 1, 2] = [(1, 0), (1, 1), (1, 2)]"
    using layout_nth [OF assms(1), of 0] layout_nth [OF assms(1), of 1]
      layout_nth [OF assms(1), of 2]
    by simp_all
  from book_rooms_select [OF lo hi e s] have "book_rooms h 3 =
      ([] @ [Booked (map (\<lambda>r. number (?rs ! r)) [0, 1, 2]) (Some 2)],
       \<lparr> rooms = mark_booked ?rs [0, 1, 2],
         last_booked_ids = map (\<lambda>r. number (?rs ! r)) [0, 1, 2] \<rparr>)"
    by simp
  then show ?thesis unfolding nums using pos by simp
qed

theorem first_floor_free_books_first_three_witness:
  "map (\<lambda>r. r\<lparr>is_booked := False\<rparr>) (rooms first_floor_free) = init_hotel \<and>
   list_all (\<lambda>r. floor r = 1 \<longrightarrow> \<not> is_booked r) (rooms first_floor_free) \<and>
   book_rooms first_floor_free 3 =
     ([Booked [101, 102, 103] (Some 2)],
      \<lparr> rooms = mark_booked (rooms first_floor_free) [0, 1, 2],
        last_booked_ids = [101, 102, 103] \<rparr>) \<and>
   map (\<lambda>r. (floor (rooms first_floor_free ! r), index (rooms first_floor_free ! r))) [0, 1, 2] =
     [(1, 0), (1, 1), (1, 2)]"
proof -
  have a: "map (\<lambda>r. r\<lparr>is_booked := False\<rparr>) (rooms first_floor_free) = init_hotel"
    by code_simp
  have b: "list_all (\<lambda>r. floor r = 1 \<longrightarrow> \<not> is_booked r) (rooms first_floor_free)"
    by code_simp
  then have b': "\<forall>r \<in> set (rooms first_floor_free). floor r = 1 \<longrightarrow> \<not> is_booked r"
    unfolding list_all_iff .
  from first_floor_free_books_first_three [OF a b'] a b show ?thesis by blast
qed

text \<open>
  In the hotel as constructed, a request for three rooms is reported at cost 2, not 0.
\<close>

theorem first_floor_cost_zero_counterexample:
  "fst (book_rooms HotelSystem 3) = [Booked [101, 102, 103] (Some 2)]"
  by code_simp

end
